theory Spec2Isabelle
  imports Main
begin

section \<open>QuickFileBrowser: a shallow embedding of quick_file_browser.py\<close>

text \<open>
  The plugin is one Python module. Its functions are embedded as HOL functions:
  exceptions are values of a sum type, the process-wide table
  \<open>QuickPanelFileBrowser.path_list\<close> and the editor's observable side (clipboard,
  status line, error dialogs, opened files, the panel on display) are fields of an
  explicit record that every operation takes and returns, and the operating system is
  a record of the answers the plugin asks it for. The path functions are those of
  \<open>posixpath\<close>: the module's \<open>is_windows\<close> is taken to be false, so that
  \<open>join_path\<close> is \<open>os.path.join\<close> and \<open>normalize_path\<close> is the identity
  (the else-branch of \<open>initialize\<close>). \<open>Debug.print\<close> only writes to the console
  and is left out.
\<close>

subsection \<open>Python strings and exceptions\<close>

datatype py_error =
    OSError string
  | ValueError string
  | KeyError string
  | IndexError string

text \<open>\<open>str(e)\<close> of a caught exception: its message.\<close>

fun str_error :: "py_error \<Rightarrow> string" where
  "str_error (OSError m) = m"
| "str_error (ValueError m) = m"
| "str_error (KeyError m) = m"
| "str_error (IndexError m) = m"

text \<open>\<open>s * n\<close> on a string: the empty string when \<open>n\<close> is not positive.\<close>

definition py_repeat :: "string \<Rightarrow> int \<Rightarrow> string" where
  "py_repeat s n = concat (replicate (nat n) s)"

text \<open>\<open>sep.join(xs)\<close>.\<close>

fun str_join :: "string \<Rightarrow> string list \<Rightarrow> string" where
  "str_join sep [] = []"
| "str_join sep [x] = x"
| "str_join sep (x # y # zs) = x @ sep @ str_join sep (y # zs)"

text \<open>The decimal rendering of a length inside an f-string.\<close>

definition digit_char :: "nat \<Rightarrow> char" where
  "digit_char d = ''0123456789'' ! d"

function str_nat :: "nat \<Rightarrow> string" where
  "str_nat n = (if n < 10 then [digit_char n] else str_nat (n div 10) @ [digit_char (n mod 10)])"
  by pat_completeness auto
termination
  by (relation "measure id") auto

declare str_nat.simps [simp del]

text \<open>\<open>xs[i]\<close>: a negative index counts from the end, an index out of range raises.\<close>

definition py_index :: "'a list \<Rightarrow> int \<Rightarrow> py_error + 'a" where
  "py_index xs i =
     (if 0 \<le> i \<and> i < int (length xs) then Inr (xs ! nat i)
      else if i < 0 \<and> - int (length xs) \<le> i then Inr (xs ! nat (int (length xs) + i))
      else Inl (IndexError ''list index out of range''))"

text \<open>\<open>s.split(c)\<close> for a one-character separator, and \<open>s.rfind(c)\<close>.\<close>

fun str_split :: "char \<Rightarrow> string \<Rightarrow> string list" where
  "str_split c [] = [[]]"
| "str_split c (x # xs) =
     (if x = c then [] # str_split c xs
      else (case str_split c xs of [] \<Rightarrow> [[x]] | y # ys \<Rightarrow> (x # y) # ys))"

fun rfind :: "char \<Rightarrow> string \<Rightarrow> int" where
  "rfind c [] = - 1"
| "rfind c (x # xs) =
     (let r = rfind c xs in if 0 \<le> r then r + 1 else if x = c then 0 else - 1)"

definition startswith :: "string \<Rightarrow> string \<Rightarrow> bool" where
  "startswith s p = (take (length p) s = p)"

definition endswith :: "string \<Rightarrow> string \<Rightarrow> bool" where
  "endswith s p = (length p \<le> length s \<and> drop (length s - length p) s = p)"


subsection \<open>posixpath\<close>

text \<open>
  \<open>os.path.join\<close>, \<open>normpath\<close>, \<open>abspath\<close>, \<open>relpath\<close>, \<open>dirname\<close> and
  \<open>splitext\<close> as \<open>posixpath\<close> and \<open>genericpath\<close> of Python 3.8 define them, the
  interpreter of the editor's plugin host. \<open>abspath\<close> and \<open>relpath\<close> read the working
  directory, which is a parameter here.
\<close>

text \<open>One round of the loop of \<open>join(a, *p)\<close>, and the loop.\<close>

definition join_step :: "string \<Rightarrow> string \<Rightarrow> string" where
  "join_step path b =
     (if startswith b ''/'' then b
      else if path = [] \<or> endswith path ''/'' then path @ b
      else path @ ''/'' @ b)"

definition os_path_join :: "string \<Rightarrow> string list \<Rightarrow> string" where
  "os_path_join a p = foldl join_step a p"

definition isabs :: "string \<Rightarrow> bool" where
  "isabs s = startswith s ''/''"

text \<open>The body of the loop of \<open>normpath\<close> over the components.\<close>

definition normpath_step :: "nat \<Rightarrow> string list \<Rightarrow> string \<Rightarrow> string list" where
  "normpath_step initial_slashes new_comps component =
     (if component = [] \<or> component = ''.'' then new_comps
      else if component \<noteq> ''..'' \<or> (initial_slashes = 0 \<and> new_comps = [])
              \<or> (new_comps \<noteq> [] \<and> last new_comps = ''..'')
      then new_comps @ [component]
      else if new_comps \<noteq> [] then butlast new_comps
      else new_comps)"

definition normpath :: "string \<Rightarrow> string" where
  "normpath path =
     (if path = [] then ''.''
      else
        let initial_slashes =
              (if startswith path ''/'' then
                 (if startswith path ''//'' \<and> \<not> startswith path ''///'' then 2 else 1)
               else 0);
            comps = str_split CHR ''/'' path;
            new_comps = foldl (normpath_step initial_slashes) [] comps;
            path' = replicate initial_slashes CHR ''/'' @ str_join ''/'' new_comps
        in if path' = [] then ''.'' else path')"

definition abspath :: "string \<Rightarrow> string \<Rightarrow> string" where
  "abspath cwd path = normpath (if isabs path then path else os_path_join cwd [path])"

text \<open>\<open>len(commonprefix([xs, ys]))\<close> on two lists of components.\<close>

fun commonprefix_len :: "'a list \<Rightarrow> 'a list \<Rightarrow> nat" where
  "commonprefix_len (x # xs) (y # ys) = (if x = y then Suc (commonprefix_len xs ys) else 0)"
| "commonprefix_len _ _ = 0"

definition relpath :: "string \<Rightarrow> string \<Rightarrow> string \<Rightarrow> py_error + string" where
  "relpath cwd path start =
     (if path = [] then Inl (ValueError ''no path specified'')
      else
        let start_list = filter (\<lambda>x. x \<noteq> []) (str_split CHR ''/'' (abspath cwd start));
            path_list = filter (\<lambda>x. x \<noteq> []) (str_split CHR ''/'' (abspath cwd path));
            i = commonprefix_len start_list path_list;
            rel_list = replicate (length start_list - i) ''..'' @ drop i path_list
        in case rel_list of
             [] \<Rightarrow> Inr ''.''
           | r # rs \<Rightarrow> Inr (os_path_join r rs))"


text \<open>
  \<open>splitext\<close>: the loop skips the dots that lead the file name; the extension starts
  at the last dot when some character before it is not a dot.
\<close>

function splitext_loop :: "string \<Rightarrow> int \<Rightarrow> int \<Rightarrow> (string \<times> string) option" where
  "splitext_loop p filenameIndex dotIndex =
     (if filenameIndex < dotIndex then
        (if p ! nat filenameIndex \<noteq> CHR ''.''
         then Some (take (nat dotIndex) p, drop (nat dotIndex) p)
         else splitext_loop p (filenameIndex + 1) dotIndex)
      else None)"
  by pat_completeness auto
termination
  by (relation "measure (\<lambda>(p, f, d). nat (d - f))") auto

declare splitext_loop.simps [simp del]

definition splitext :: "string \<Rightarrow> string \<times> string" where
  "splitext p =
     (let sepIndex = rfind CHR ''/'' p;
          dotIndex = rfind CHR ''.'' p
      in if dotIndex > sepIndex then
           (case splitext_loop p (sepIndex + 1) dotIndex of
              Some r \<Rightarrow> r
            | None \<Rightarrow> (p, []))
         else (p, []))"

subsection \<open>The regular expressions of \<open>re\<close>\<close>

text \<open>
  \<open>pat2regex\<close> hands a string to \<open>re.compile\<close> and keeps the \<open>match\<close> method of
  the result. The model of \<open>re\<close> covers the syntax that the translated patterns are
  made of: literal characters, \<open>.\<close>, an escaped punctuation character, groups
  \<open>(...)\<close> and \<open>(?:...)\<close>, alternation, the anchors \<open>^\<close> and \<open>$\<close>, and the
  greedy quantifiers \<open>*\<close>, \<open>+\<close> and \<open>?\<close>. Its answer on a pattern is one of three:
  compiled, \<open>re.error\<close> raised, or outside the modelled syntax (a character set, a
  counted repetition, an escaped letter or digit, a group that starts \<open>(?\<close> other
  than \<open>(?:\<close>, a quantifier that follows a quantifier), about which the model says
  nothing. One \<open>char\<close> stands for one character of the Python string.
\<close>

datatype regex =
    Eps
  | Lit char
  | AnyChar
  | Bol
  | Eol
  | Seq regex regex
  | Alt regex regex
  | Star regex

text \<open>
  Matching without flags. A position is the rest of the subject and whether it is
  the start of the subject. \<open>.\<close> matches any character but a newline, \<open>^\<close> matches
  at the start of the subject, \<open>$\<close> at its end and before a newline that ends it.
  \<open>re_run r x\<close> lists the positions where a match of \<open>r\<close> that starts at \<open>x\<close> can
  end; an iteration of a star that consumes nothing leaves the position as it is and
  is not repeated.
\<close>

definition newline :: char where
  "newline = CHR 0x0A"

function re_run :: "regex \<Rightarrow> bool \<times> string \<Rightarrow> (bool \<times> string) list" where
  "re_run Eps x = [x]"
| "re_run (Lit c) x = (case snd x of [] \<Rightarrow> [] | d # t \<Rightarrow> if d = c then [(False, t)] else [])"
| "re_run AnyChar x = (case snd x of [] \<Rightarrow> [] | d # t \<Rightarrow> if d \<noteq> newline then [(False, t)] else [])"
| "re_run Bol x = (if fst x then [x] else [])"
| "re_run Eol x = (if snd x = [] \<or> snd x = [newline] then [x] else [])"
| "re_run (Seq r1 r2) x = concat (map (re_run r2) (re_run r1 x))"
| "re_run (Alt r1 r2) x = re_run r1 x @ re_run r2 x"
| "re_run (Star r) x =
     x # concat (map (re_run (Star r))
                     (filter (\<lambda>y. length (snd y) < length (snd x)) (re_run r x)))"
  by pat_completeness auto
termination
  by (relation "measures [\<lambda>(r, x). size r, \<lambda>(r, x). length (snd x)]") auto

declare re_run.simps(8) [simp del]

text \<open>\<open>pattern.match(s)\<close> as a truth value: some match starts at the start of \<open>s\<close>.\<close>

definition re_match :: "regex \<Rightarrow> string \<Rightarrow> bool" where
  "re_match r s = (re_run r (True, s) \<noteq> [])"

text \<open>
  The parser reads the pattern from left to right, one character at a time, and
  keeps a stack of open groups: for each the branches already closed by \<open>|\<close> and
  the items of the branch being read. An item remembers whether it is an anchor or
  a repetition, which a following quantifier refuses as \<open>sre_parse\<close> does
  (\<open>nothing to repeat\<close>, \<open>multiple repeat\<close>).
\<close>

datatype item = Atom regex | At regex | Rep regex | Grp regex

fun regex_of :: "item \<Rightarrow> regex" where
  "regex_of (Atom r) = r"
| "regex_of (At r) = r"
| "regex_of (Rep r) = r"
| "regex_of (Grp r) = r"

fun build_seq :: "item list \<Rightarrow> regex" where
  "build_seq [] = Eps"
| "build_seq [i] = regex_of i"
| "build_seq (i # j # js) = Seq (regex_of i) (build_seq (j # js))"

fun build_alt :: "regex list \<Rightarrow> regex" where
  "build_alt [] = Eps"
| "build_alt [r] = r"
| "build_alt (r # q # qs) = Alt r (build_alt (q # qs))"

type_synonym group_frame = "regex list \<times> item list"

definition close_frame :: "group_frame \<Rightarrow> regex" where
  "close_frame f = build_alt (fst f @ [build_seq (snd f)])"

datatype mode = Normal | AfterBackslash | AfterOpen | AfterOpenQuestion

datatype 'a outcome = Compiled 'a | ReError | Unsupported

type_synonym parser = "mode \<times> group_frame \<times> group_frame list"

definition push_item :: "item \<Rightarrow> group_frame \<Rightarrow> group_frame" where
  "push_item i f = (fst f, snd f @ [i])"

definition quantify :: "char \<Rightarrow> regex \<Rightarrow> regex" where
  "quantify q r =
     (if q = CHR ''*'' then Star r
      else if q = CHR ''+'' then Seq r (Star r)
      else Alt r Eps)"

definition is_alnum :: "char \<Rightarrow> bool" where
  "is_alnum c =
     (let n = of_char c :: nat
      in (48 \<le> n \<and> n \<le> 57) \<or> (65 \<le> n \<and> n \<le> 90) \<or> (97 \<le> n \<and> n \<le> 122))"

text \<open>A character read in the normal mode, with the current frame and the frames below it.\<close>

definition step_normal :: "char \<Rightarrow> group_frame \<Rightarrow> group_frame list \<Rightarrow> parser outcome" where
  "step_normal c cur below =
     (if c = CHR 0x5C then Compiled (AfterBackslash, cur, below)
      else if c = CHR ''('' then Compiled (AfterOpen, cur, below)
      else if c = CHR '')'' then
        (case below of
           [] \<Rightarrow> ReError
         | f # fs \<Rightarrow> Compiled (Normal, push_item (Grp (close_frame cur)) f, fs))
      else if c = CHR ''|'' then Compiled (Normal, (fst cur @ [build_seq (snd cur)], []), below)
      else if c = CHR ''*'' \<or> c = CHR ''+'' \<or> c = CHR ''?'' then
        (if snd cur = [] then ReError
         else (case last (snd cur) of
                 At r \<Rightarrow> ReError
               | Rep r \<Rightarrow> (if c = CHR ''*'' then ReError else Unsupported)
               | Atom r \<Rightarrow> Compiled (Normal, (fst cur, butlast (snd cur) @ [Rep (quantify c r)]), below)
               | Grp r \<Rightarrow> Compiled (Normal, (fst cur, butlast (snd cur) @ [Rep (quantify c r)]), below)))
      else if c = CHR ''.'' then Compiled (Normal, push_item (Atom AnyChar) cur, below)
      else if c = CHR ''^'' then Compiled (Normal, push_item (At Bol) cur, below)
      else if c = CHR ''$'' then Compiled (Normal, push_item (At Eol) cur, below)
      else if c = CHR ''['' \<or> c = CHR ''{'' then Unsupported
      else Compiled (Normal, push_item (Atom (Lit c)) cur, below))"

fun parse_char :: "parser outcome \<Rightarrow> char \<Rightarrow> parser outcome" where
  "parse_char (Compiled (Normal, cur, below)) c = step_normal c cur below"
| "parse_char (Compiled (AfterBackslash, cur, below)) c =
     (if is_alnum c then Unsupported
      else Compiled (Normal, push_item (Atom (Lit c)) cur, below))"
| "parse_char (Compiled (AfterOpen, cur, below)) c =
     (if c = CHR ''?'' then Compiled (AfterOpenQuestion, cur, below)
      else step_normal c ([], []) (cur # below))"
| "parse_char (Compiled (AfterOpenQuestion, cur, below)) c =
     (if c = CHR '':'' then Compiled (Normal, ([], []), cur # below)
      else Unsupported)"
| "parse_char ReError c = ReError"
| "parse_char Unsupported c = Unsupported"

text \<open>
  The end of the pattern: an escape or a group left open is an error, as is a group
  that was never closed.
\<close>

fun finish :: "parser outcome \<Rightarrow> regex outcome" where
  "finish (Compiled (Normal, cur, [])) = Compiled (close_frame cur)"
| "finish (Compiled (m, cur, below)) = ReError"
| "finish ReError = ReError"
| "finish Unsupported = Unsupported"

definition re_compile :: "string \<Rightarrow> regex outcome" where
  "re_compile s = finish (foldl parse_char (Compiled (Normal, ([], []), [])) s)"

subsection \<open>pat2regex\<close>

text \<open>The dialogs of \<open>sublime.error_message\<close>, by what they name.\<close>

datatype error_dialog =
    No_such_file_or_directory string
  | Invalid_patterns "string list"

text \<open>
  \<open>str.maketrans\<close> of the three glob characters, \<open>convert\<close>, and \<open>pat2regex\<close>:
  the patterns are translated, joined with \<open>|\<close> and wrapped in \<open>^(?:\<close> and
  \<open>)$\<close>; when \<open>re.compile\<close> raises, the regular expression is \<open>re.compile('.*')\<close>
  and a dialog names the patterns. The result is the regular expression and the
  dialogs shown, or \<open>None\<close> when the pattern is outside the modelled syntax.
\<close>

definition transtable :: "char \<Rightarrow> string" where
  "transtable c =
     (if c = CHR ''*'' then ''.*''
      else if c = CHR ''.'' then [CHR 0x5C, CHR ''.'']
      else if c = CHR ''?'' then ''.''
      else [c])"

definition convert :: "string \<Rightarrow> string" where
  "convert pattern = concat (map transtable pattern)"

definition pat2regex :: "string list \<Rightarrow> (regex \<times> error_dialog list) option" where
  "pat2regex patterns =
     (case re_compile (''^(?:'' @ str_join ''|'' (map convert patterns) @ '')$'') of
        Compiled regex \<Rightarrow> Some (regex, [])
      | ReError \<Rightarrow>
          (case re_compile ''.*'' of
             Compiled regex \<Rightarrow> Some (regex, [Invalid_patterns patterns])
           | _ \<Rightarrow> None)
      | Unsupported \<Rightarrow> None)"

text \<open>
  \<open>pat2regex(patterns).match(name)\<close> as a truth value, which is how \<open>initialize\<close>
  uses the result; \<open>None\<close> when the patterns are outside the modelled syntax.
\<close>

definition matches :: "string list \<Rightarrow> string \<Rightarrow> bool option" where
  "matches patterns s = map_option (\<lambda>compiled. re_match (fst compiled) s) (pat2regex patterns)"

subsection \<open>Settings and the class attributes that \<open>initialize\<close> sets\<close>

text \<open>
  The settings file, with the types the plugin expects. A key that is absent is
  \<open>None\<close>, and \<open>settings.get(key, default)\<close> is \<open>get_default\<close>. An extension is
  a string or \<open>null\<close>; \<open>extensions\<close> is one extension or a list of them.
\<close>

definition get_default :: "'a option \<Rightarrow> 'a \<Rightarrow> 'a" where
  "get_default v d = (case v of None \<Rightarrow> d | Some x \<Rightarrow> x)"

datatype extensions = Extension_list "string option list" | Extension "string option"

record file_type =
  ft_icon :: "string option"
  ft_extensions :: "extensions option"

record settings =
  s_file_exclude_patterns :: "string list option"
  s_folder_exclude_patterns :: "string list option"
  s_show_hidden_files :: "bool option"
  s_ignored_file_types :: "string list option"
  s_file_types :: "(string \<times> file_type) list option"

record FileTypeIcon =
  name :: string
  icon :: string

text \<open>The dictionary \<open>file_type_icons\<close>: its keys are extensions and \<open>None\<close>.\<close>

type_synonym icon_table = "string option \<rightharpoonup> FileTypeIcon"

text \<open>The body of the loop over \<open>settings.get('file_types', {}).items()\<close>.\<close>

definition add_file_type :: "icon_table \<Rightarrow> string \<times> file_type \<Rightarrow> icon_table" where
  "add_file_type file_type_icons entry =
     (let file_type_icon = \<lparr> name = fst entry, icon = get_default (ft_icon (snd entry)) ''Open'' \<rparr>
      in case get_default (ft_extensions (snd entry)) (Extension_list []) of
           Extension_list extensions \<Rightarrow>
             foldl (\<lambda>t extension. t(extension \<mapsto> file_type_icon)) file_type_icons extensions
         | Extension extension \<Rightarrow> file_type_icons(extension \<mapsto> file_type_icon))"

text \<open>The loop, and the two entries added after it when they are missing.\<close>

definition build_file_type_icons :: "(string \<times> file_type) list \<Rightarrow> icon_table" where
  "build_file_type_icons file_types =
     (let t0 = foldl add_file_type Map.empty file_types;
          t1 = (if t0 (Some ''.*'') = None
                then t0(Some ''.*'' \<mapsto> \<lparr> name = ''file'', icon = ''Open'' \<rparr>) else t0)
      in if t1 None = None
         then t1(None \<mapsto> \<lparr> name = ''folder'', icon = ''Open'' \<rparr>) else t1)"

record browser =
  exclude_file :: "string \<Rightarrow> bool"
  exclude_folder :: "string \<Rightarrow> bool"
  show_hidden_files :: bool
  ignored_file_types :: "string list"
  file_type_icons :: icon_table

text \<open>
  \<open>QuickPanelFileBrowser.initialize\<close>: the class attributes and the dialogs shown
  while the patterns were compiled; \<open>None\<close> when a pattern is outside the modelled
  syntax of \<open>re\<close>.
\<close>

definition initialize :: "settings \<Rightarrow> (browser \<times> error_dialog list) option" where
  "initialize s =
     (case pat2regex (get_default (s_file_exclude_patterns s) []) of
        None \<Rightarrow> None
      | Some (file_regex, file_dialogs) \<Rightarrow>
          (case pat2regex (get_default (s_folder_exclude_patterns s) []) of
             None \<Rightarrow> None
           | Some (folder_regex, folder_dialogs) \<Rightarrow>
               Some (\<lparr> exclude_file = re_match file_regex,
                       exclude_folder = re_match folder_regex,
                       show_hidden_files = get_default (s_show_hidden_files s) True,
                       ignored_file_types = get_default (s_ignored_file_types s) [],
                       file_type_icons = build_file_type_icons (get_default (s_file_types s) []) \<rparr>,
                     file_dialogs @ folder_dialogs)))"

subsection \<open>Panel items\<close>

text \<open>
  \<open>KIND_FILE\<close> and \<open>KIND_DIRECTORY\<close> are the tuples of the source. The HTML of
  \<open>action_tags\<close> is kept as the data it is formatted from: a \<open>make_tags\<close> line has
  its operation and the command URLs of the absolute and of the relative path, the
  third tag has the URL of the open command and the icon; \<open>sublime.command_url\<close> is
  a constructor. \<open>details\<close> is the tags joined by the separator in \<open>make_item\<close>,
  and the relative path followed by them in \<open>list_files\<close>.
\<close>

datatype kind_id = KIND_ID_VARIABLE

type_synonym kind = "kind_id \<times> string \<times> string"

definition KIND_FILE :: kind where
  "KIND_FILE = (KIND_ID_VARIABLE, ''F'', ''File'')"

definition KIND_DIRECTORY :: kind where
  "KIND_DIRECTORY = (KIND_ID_VARIABLE, ''D'', ''Directory'')"

datatype arg = Str_arg string | Bool_arg bool

datatype url = command_url string "(string \<times> arg) list"

datatype tag = make_tags string url url | open_tag url string

datatype item_details = Joined "tag list" | Relative_and_joined string "tag list"

record QuickPanelItem =
  trigger :: string
  details :: item_details
  annotation :: string
  kind :: kind

definition save_path_url :: "string \<Rightarrow> url" where
  "save_path_url path = command_url ''quick_file_browser_save_path'' [(''path'', Str_arg path)]"

definition insert_path_url :: "string \<Rightarrow> url" where
  "insert_path_url path = command_url ''insert'' [(''characters'', Str_arg path)]"

text \<open>\<open>d[key]\<close> on the dictionary: a missing key raises \<open>KeyError\<close>.\<close>

definition key_repr :: "string option \<Rightarrow> string" where
  "key_repr k = (case k of None \<Rightarrow> ''None'' | Some e \<Rightarrow> [CHR 0x27] @ e @ [CHR 0x27])"

definition lookup_icon :: "icon_table \<Rightarrow> string option \<Rightarrow> py_error + FileTypeIcon" where
  "lookup_icon t k = (case t k of None \<Rightarrow> Inl (KeyError (key_repr k)) | Some v \<Rightarrow> Inr v)"

text \<open>
  The two lines \<open>if ext not in self.file_type_icons: ext = '.*'\<close> of both listings,
  and the lookup that follows them: the classification of a file by its extension,
  and of a directory by \<open>None\<close>.
\<close>

definition known_or_wildcard :: "icon_table \<Rightarrow> string \<Rightarrow> string" where
  "known_or_wildcard t ext = (if t (Some ext) = None then ''.*'' else ext)"

definition classify :: "icon_table \<Rightarrow> string option \<Rightarrow> py_error + FileTypeIcon" where
  "classify t ext =
     (case ext of
        None \<Rightarrow> lookup_icon t None
      | Some e \<Rightarrow> lookup_icon t (Some (known_or_wildcard t e)))"

definition action_tags :: "browser \<Rightarrow> string \<Rightarrow> string \<Rightarrow> string option \<Rightarrow> py_error + tag list" where
  "action_tags b absolute relative ext =
     (case lookup_icon (file_type_icons b) ext of
        Inl e \<Rightarrow> Inl e
      | Inr file_type_icon \<Rightarrow>
          Inr [make_tags ''Copy'' (save_path_url absolute) (save_path_url relative),
               make_tags ''Insert'' (insert_path_url absolute) (insert_path_url relative),
               open_tag (command_url ''quick_file_browser_open_file''
                           [(''path'', Str_arg absolute),
                            (''open_in_sublime'', Bool_arg (ext = Some ''.*''))])
                        (icon file_type_icon)])"

subsection \<open>The operating system\<close>

text \<open>
  What the plugin asks of the operating system: the working directory, \<open>isfile\<close>,
  \<open>isdir\<close>, \<open>os.listdir\<close> (the names, or the message of the \<open>OSError\<close> it
  raises) and, for \<open>os.walk\<close>, the tree of files and directories under a path.
\<close>

datatype fsnode = File string | Dir string "fsnode list"

record filesystem =
  getcwd :: string
  isfile :: "string \<Rightarrow> bool"
  isdir :: "string \<Rightarrow> bool"
  listdir :: "string \<Rightarrow> string + string list"
  tree :: "string \<Rightarrow> fsnode list"

definition normalize_path :: "string \<Rightarrow> string" where
  "normalize_path path = path"

definition join_path :: "string \<Rightarrow> string \<Rightarrow> string" where
  "join_path path leaf = os_path_join path [leaf]"

subsection \<open>QuickPanelFileBrowser: the listings\<close>

text \<open>
  The instance attributes \<open>window\<close> (by its id) and \<open>init_path\<close>, the anchor of the
  relative paths.
\<close>

record session =
  window :: nat
  init_path :: string

definition make_item ::
  "browser \<Rightarrow> filesystem \<Rightarrow> session \<Rightarrow> string \<Rightarrow> string \<Rightarrow> string option \<Rightarrow> kind
     \<Rightarrow> py_error + QuickPanelItem" where
  "make_item b fs self entry absolute ext k =
     (case relpath (getcwd fs) absolute (init_path self) of
        Inl e \<Rightarrow> Inl e
      | Inr rel \<Rightarrow>
          (let relative = normalize_path rel in
           case action_tags b absolute relative ext of
             Inl e \<Rightarrow> Inl e
           | Inr actions \<Rightarrow>
               (case lookup_icon (file_type_icons b) ext of
                  Inl e \<Rightarrow> Inl e
                | Inr file_type_icon \<Rightarrow>
                    Inr \<lparr> trigger = entry, details = Joined actions,
                          annotation = name file_type_icon, kind = k \<rparr>)))"

text \<open>
  The arguments of \<open>show_quick_panel\<close>: the paths, the items and the directory on
  display (the empty string for the recursive listing).
\<close>

type_synonym panel = "string list \<times> QuickPanelItem list \<times> string"

text \<open>The loop of \<open>browse\<close> over \<open>os.listdir(curdir)\<close>, with the two lists it appends to.\<close>

fun browse_loop ::
  "browser \<Rightarrow> filesystem \<Rightarrow> session \<Rightarrow> string \<Rightarrow> string list
     \<Rightarrow> string list \<times> QuickPanelItem list \<Rightarrow> py_error + string list \<times> QuickPanelItem list" where
  "browse_loop b fs self curdir [] acc = Inr acc"
| "browse_loop b fs self curdir (entry # entries) acc =
     (case entry of
        [] \<Rightarrow> Inl (IndexError ''string index out of range'')
      | c # cs \<Rightarrow>
         (if c = CHR ''.'' \<and> \<not> show_hidden_files b then browse_loop b fs self curdir entries acc
          else
            let absolute = join_path curdir entry;
                ext = snd (splitext entry);
                classified =
                  (if isfile fs absolute then
                     (if ext \<in> set (ignored_file_types b) then None
                      else Some (Some (known_or_wildcard (file_type_icons b) ext), KIND_FILE))
                   else Some (None, KIND_DIRECTORY))
            in case classified of
                 None \<Rightarrow> browse_loop b fs self curdir entries acc
               | Some (ext', k) \<Rightarrow>
                   (case make_item b fs self entry absolute ext' k of
                      Inl e \<Rightarrow> Inl e
                    | Inr item \<Rightarrow>
                        browse_loop b fs self curdir entries (fst acc @ [absolute], snd acc @ [item]))))"

definition browse :: "browser \<Rightarrow> filesystem \<Rightarrow> session \<Rightarrow> string \<Rightarrow> py_error + panel" where
  "browse b fs self curdir0 =
     (let pardir = normalize_path (abspath (getcwd fs) (os_path_join curdir0 [''..'']));
          curdir = normalize_path curdir0
      in case make_item b fs self ''..'' pardir None KIND_DIRECTORY of
           Inl e \<Rightarrow> Inl e
         | Inr item0 \<Rightarrow>
             (case make_item b fs self curdir curdir None KIND_DIRECTORY of
                Inl e \<Rightarrow> Inl e
              | Inr item1 \<Rightarrow>
                  (let items = [item0\<lparr> annotation := ''parent '' @ annotation item0 \<rparr>,
                                item1\<lparr> annotation := ''current '' @ annotation item1 \<rparr>]
                   in case listdir fs curdir of
                        Inl m \<Rightarrow> Inl (OSError m)
                      | Inr entries \<Rightarrow>
                          (case browse_loop b fs self curdir entries ([pardir, curdir], items) of
                             Inl e \<Rightarrow> Inl e
                           | Inr (paths, items') \<Rightarrow> Inr (paths, items', curdir)))))"

text \<open>
  \<open>os.walk(path)\<close> with the pruning of \<open>list_files\<close>, which replaces \<open>dirs\<close> in
  place before \<open>os.walk\<close> goes down: a triple for the directory (its path, the
  subdirectories that are kept, its files), then the walks of the kept
  subdirectories, each under \<open>join(top, name)\<close>. The root itself is never tested.
\<close>

fun dir_names :: "fsnode list \<Rightarrow> string list" where
  "dir_names [] = []"
| "dir_names (Dir d sub # ns) = d # dir_names ns"
| "dir_names (File f # ns) = dir_names ns"

fun file_names :: "fsnode list \<Rightarrow> string list" where
  "file_names [] = []"
| "file_names (Dir d sub # ns) = file_names ns"
| "file_names (File f # ns) = f # file_names ns"

fun walk :: "(string \<Rightarrow> bool) \<Rightarrow> string \<Rightarrow> fsnode list \<Rightarrow> (string \<times> string list \<times> string list) list" where
  "walk exclude top_dir contents =
     (top_dir, filter (\<lambda>d. \<not> exclude d) (dir_names contents), file_names contents)
     # concat (map (\<lambda>n. case n of
                           Dir d sub \<Rightarrow> if exclude d then [] else walk exclude (os_path_join top_dir [d]) sub
                         | File f \<Rightarrow> [])
                    contents)"

declare walk.simps [simp del]

text \<open>The loop of \<open>list_files\<close> over the files of one directory.\<close>

fun list_files_loop ::
  "browser \<Rightarrow> filesystem \<Rightarrow> session \<Rightarrow> string \<Rightarrow> string list
     \<Rightarrow> string list \<times> QuickPanelItem list \<Rightarrow> py_error + string list \<times> QuickPanelItem list" where
  "list_files_loop b fs self root [] acc = Inr acc"
| "list_files_loop b fs self root (file # files) acc =
     (if exclude_file b file then list_files_loop b fs self root files acc
      else
        let ext0 = snd (splitext file) in
        if ext0 \<in> set (ignored_file_types b) then list_files_loop b fs self root files acc
        else
          let ext = known_or_wildcard (file_type_icons b) ext0;
              absolute = normalize_path (os_path_join root [file])
          in case relpath (getcwd fs) absolute (init_path self) of
               Inl e \<Rightarrow> Inl e
             | Inr rel \<Rightarrow>
                 (let relative = normalize_path rel in
                  case action_tags b absolute relative (Some ext) of
                    Inl e \<Rightarrow> Inl e
                  | Inr actions \<Rightarrow>
                      (case lookup_icon (file_type_icons b) (Some ext) of
                         Inl e \<Rightarrow> Inl e
                       | Inr file_type_icon \<Rightarrow>
                           list_files_loop b fs self root files
                             (fst acc @ [absolute],
                              snd acc @ [\<lparr> trigger = file,
                                           details = Relative_and_joined relative actions,
                                           annotation = name file_type_icon,
                                           kind = KIND_FILE \<rparr>]))))"

text \<open>The loop over the triples of the walk.\<close>

fun list_files_walk ::
  "browser \<Rightarrow> filesystem \<Rightarrow> session \<Rightarrow> (string \<times> string list \<times> string list) list
     \<Rightarrow> string list \<times> QuickPanelItem list \<Rightarrow> py_error + string list \<times> QuickPanelItem list" where
  "list_files_walk b fs self [] acc = Inr acc"
| "list_files_walk b fs self (triple # triples) acc =
     (case list_files_loop b fs self (fst triple) (snd (snd triple)) acc of
        Inl e \<Rightarrow> Inl e
      | Inr acc' \<Rightarrow> list_files_walk b fs self triples acc')"

definition list_files :: "browser \<Rightarrow> filesystem \<Rightarrow> session \<Rightarrow> string \<Rightarrow> py_error + panel" where
  "list_files b fs self path =
     (case list_files_walk b fs self (walk (exclude_folder b) path (tree fs path)) ([], []) of
        Inl e \<Rightarrow> Inl e
      | Inr (paths, items) \<Rightarrow> Inr (paths, items, []))"

subsection \<open>The editor and the selection callback\<close>

text \<open>
  What the plugin changes outside itself: the table \<open>path_list\<close> of the class, keyed
  by window id; the clipboard; the messages sent to the status line and the error
  dialogs, oldest first; the files opened; and the quick panel on display with the
  callback's captured arguments, \<open>None\<close> when no panel of the plugin is open.
\<close>

record world =
  path_list :: "nat \<rightharpoonup> string list"
  clipboard :: string
  status_messages :: "string list"
  error_messages :: "error_dialog list"
  opened_files :: "string list"
  quick_panel :: "panel option"

definition status_message :: "string \<Rightarrow> world \<Rightarrow> world" where
  "status_message m w = w\<lparr> status_messages := status_messages w @ [m] \<rparr>"

definition show_quick_panel :: "panel \<Rightarrow> world \<Rightarrow> world" where
  "show_quick_panel p w = w\<lparr> quick_panel := Some p \<rparr>"

text \<open>
  \<open>on_done(index, event)\<close> of the panel showing \<open>(paths, items, curdir)\<close>; the host
  has closed the panel when it calls. \<open>primary\<close> is
  \<open>event.get('modifier_keys', {}).get('primary', False)\<close>. An exception that leaves
  the callback is the result \<open>Inl\<close>; nothing was changed before it was raised but
  the panel, which is closed.
\<close>

definition on_done ::
  "browser \<Rightarrow> filesystem \<Rightarrow> session \<Rightarrow> panel \<Rightarrow> int \<Rightarrow> bool \<Rightarrow> world \<Rightarrow> py_error + world" where
  "on_done b fs self shown index primary w0 =
     (let paths = fst shown; items = fst (snd shown); curdir = snd (snd shown);
          w = w0\<lparr> quick_panel := None \<rparr>
      in if index = - 1 then
           (case path_list w (window self) of
              None \<Rightarrow> Inl (KeyError (str_nat (window self)))
            | Some saved \<Rightarrow>
                (let w' = w\<lparr> path_list := (path_list w)(window self := None) \<rparr>
                 in if saved \<noteq> [] then
                      Inr (status_message (''Copied '' @ str_nat (length saved) @ '' paths'')
                             (w'\<lparr> clipboard := str_join [newline] saved \<rparr>))
                    else Inr w'))
         else
           (case py_index paths index of
              Inl e \<Rightarrow> Inl e
            | Inr path \<Rightarrow>
                (case py_index items index of
                   Inl e \<Rightarrow> Inl e
                 | Inr item \<Rightarrow>
                     if kind item = KIND_FILE then
                       (let w' = w\<lparr> opened_files := opened_files w @ [path] \<rparr>
                        in if primary then Inr (show_quick_panel shown w') else Inr w')
                     else if path \<noteq> curdir then
                       (case browse b fs self path of
                          Inr listing \<Rightarrow> Inr (show_quick_panel listing w)
                        | Inl e \<Rightarrow> Inr (show_quick_panel shown (status_message (str_error e) w)))
                     else Inr (show_quick_panel shown w))))"



text \<open>
  \<open>QuickFileBrowserSavePathCommand.run\<close> in the window \<open>wid\<close>:
  \<open>path_list.get(wid, []).append(path)\<close> appends to the list stored for the window, or
  to a fresh list that nothing else refers to; then the status line says
  \<open>Saved <path>\<close>.
\<close>

definition save_path_run :: "nat \<Rightarrow> string \<Rightarrow> world \<Rightarrow> world" where
  "save_path_run wid path w =
     status_message (''Saved '' @ path)
       (case path_list w wid of
          None \<Rightarrow> w
        | Some saved \<Rightarrow> w\<lparr> path_list := (path_list w)(wid \<mapsto> saved @ [path]) \<rparr>)"

text \<open>A query of the table as the save command makes it: \<open>path_list.get(wid, [])\<close>.\<close>

definition saved_paths :: "world \<Rightarrow> nat \<Rightarrow> string list" where
  "saved_paths w wid = (case path_list w wid of None \<Rightarrow> [] | Some saved \<Rightarrow> saved)"

subsection \<open>StatusBarThread: the progress animation\<close>

text \<open>
  The fields \<open>state\<close>, \<open>step\<close> and \<open>status\<close> of \<open>StatusBarThread\<close>, as
  \<open>__init__\<close> sets them, and \<open>update_status_bar\<close>, which the constructor calls once
  (through \<open>update_status_message\<close>) and the timer calls again every 100 ms.
\<close>

record StatusBarThread =
  state :: int
  step :: int
  status :: string

definition StatusBarThread_init :: StatusBarThread where
  "StatusBarThread_init = \<lparr> state = 7, step = 1, status = [] \<rparr>"

definition update_status_bar :: "StatusBarThread \<Rightarrow> StatusBarThread" where
  "update_status_bar t =
     (let step' = (if state t = 0 \<or> state t = 7 then - step t else step t);
          state' = state t + step'
      in t\<lparr> step := step', state := state',
             status := ''['' @ py_repeat '' '' state' @ ''='' @ py_repeat '' '' (7 - state') @ '']'' \<rparr>)"

text \<open>The animator after \<open>n\<close> ticks.\<close>

definition ticks :: "nat \<Rightarrow> StatusBarThread" where
  "ticks n = (update_status_bar ^^ n) StatusBarThread_init"

text \<open>The frame the specification describes for a marker at column \<open>p\<close>.\<close>

definition frame :: "int \<Rightarrow> string" where
  "frame p = ''['' @ replicate (nat p) CHR '' '' @ ''='' @ replicate (nat (7 - p)) CHR '' '' @ '']''"

subsection \<open>Glob patterns, as the specification words them\<close>

text \<open>
  The reading of a pattern that the specification gives: \<open>*\<close> stands for any run
  of characters, \<open>?\<close> for a single character, every other character for itself,
  and the pattern has to account for the whole name. This definition follows the
  specification, not the code; the matcher of the code is compared with it below.
  A character is plain when \<open>re\<close> gives it no meaning of its own and
  \<open>pat2regex\<close> does not translate it into one.
\<close>

definition plain_char :: "char \<Rightarrow> bool" where
  "plain_char c = (c \<notin> set [CHR 0x5C, CHR ''('', CHR '')'', CHR ''|'', CHR ''+'', CHR ''['', CHR ''{'', CHR ''^'', CHR ''$''])"

fun glob_matches :: "string \<Rightarrow> string \<Rightarrow> bool" where
  "glob_matches [] s = (s = [])"
| "glob_matches (p # ps) [] = (p = CHR ''*'' \<and> glob_matches ps [])"
| "glob_matches (p # ps) (c # cs) =
     (if p = CHR ''*'' then glob_matches ps (c # cs) \<or> glob_matches (p # ps) cs
      else (p = CHR ''?'' \<or> p = c) \<and> glob_matches ps cs)"

text \<open>The item that the parser makes of one character of a pattern.\<close>

definition glob_item :: "char \<Rightarrow> item" where
  "glob_item c =
     (if c = CHR ''*'' then Rep (Star AnyChar)
      else if c = CHR ''?'' then Atom AnyChar
      else Atom (Lit c))"

text \<open>A match of \<open>r\<close> from the position \<open>x\<close> can end at the end of the subject.\<close>

definition accepts :: "regex \<Rightarrow> bool \<times> string \<Rightarrow> bool" where
  "accepts r x = (\<exists>y \<in> set (re_run r x). snd y = [])"

subsection \<open>Concrete inputs\<close>

text \<open>
  The settings file with no key set and the class attributes that \<open>initialize\<close>
  computes from it; a small file system with a project directory in which
  \<open>/proj/src/lib\<close> cannot be read; a session anchored at \<open>/proj/src\<close> in window 1;
  and a world in which that window has saved two paths.
\<close>

definition example_settings :: settings where
  "example_settings =
     \<lparr> s_file_exclude_patterns = None, s_folder_exclude_patterns = None,
       s_show_hidden_files = None, s_ignored_file_types = None, s_file_types = None \<rparr>"

definition example_browser :: browser where
  "example_browser =
     \<lparr> exclude_file = re_match (Seq Bol (Seq Eps Eol)),
       exclude_folder = re_match (Seq Bol (Seq Eps Eol)),
       show_hidden_files = True,
       ignored_file_types = [],
       file_type_icons = build_file_type_icons [] \<rparr>"

definition example_fs :: filesystem where
  "example_fs =
     \<lparr> getcwd = ''/'',
       isfile = (\<lambda>p. p = ''/proj/src/main.ext''),
       isdir = (\<lambda>p. p = ''/'' \<or> p = ''/proj'' \<or> p = ''/proj/src'' \<or> p = ''/proj/src/lib''),
       listdir = (\<lambda>p. if p = ''/proj/src'' then Inr [''main.ext'', ''lib'']
                      else if p = ''/proj'' then Inr [''src'']
                      else Inl ''[Errno 13] Permission denied''),
       tree = (\<lambda>p. [File ''main.ext'', Dir ''lib'' [File ''util.ext'']]) \<rparr>"

definition example_session :: session where
  "example_session = \<lparr> window = 1, init_path = ''/proj/src'' \<rparr>"

definition example_world :: world where
  "example_world =
     \<lparr> path_list = [1 \<mapsto> [''a'', ''b'']], clipboard = [], status_messages = [],
       error_messages = [], opened_files = [], quick_panel = None \<rparr>"

subsection \<open>Files below the root of a walk\<close>

text \<open>
  A name of a file or a directory is not empty and has no slash; a tree is well
  formed when all its names are. \<open>files_in\<close> lists the files of a tree, each with
  the names of the directories that lead to it from the root of the tree.
  \<open>kept_file\<close> is the test of \<open>list_files\<close> on a file name, and \<open>kept_paths\<close>
  the paths that a walk which prunes with \<open>exclude\<close> and keeps the files that
  pass \<open>keep\<close> comes to, in its order.
\<close>

definition valid_name :: "string \<Rightarrow> bool" where
  "valid_name n = (n \<noteq> [] \<and> CHR ''/'' \<notin> set n)"

fun wf_nodes :: "fsnode list \<Rightarrow> bool" where
  "wf_nodes [] = True"
| "wf_nodes (File f # ns) = (valid_name f \<and> wf_nodes ns)"
| "wf_nodes (Dir d sub # ns) = (valid_name d \<and> wf_nodes sub \<and> wf_nodes ns)"

fun files_in :: "fsnode list \<Rightarrow> (string list \<times> string) list" where
  "files_in [] = []"
| "files_in (File f # ns) = ([], f) # files_in ns"
| "files_in (Dir d sub # ns) = map (\<lambda>x. (d # fst x, snd x)) (files_in sub) @ files_in ns"

definition kept_file :: "browser \<Rightarrow> string \<Rightarrow> bool" where
  "kept_file b f = (\<not> exclude_file b f \<and> snd (splitext f) \<notin> set (ignored_file_types b))"

text \<open>What \<open>join\<close> puts between a path and a first component that is a name.\<close>

definition with_sep :: "string \<Rightarrow> string" where
  "with_sep path = (if path = [] \<or> endswith path ''/'' then path else path @ ''/'')"

fun kept_paths :: "(string \<Rightarrow> bool) \<Rightarrow> (string \<Rightarrow> bool) \<Rightarrow> string \<Rightarrow> fsnode list \<Rightarrow> string list" where
  "kept_paths exclude keep top_dir contents =
     map (\<lambda>f. os_path_join top_dir [f]) (filter keep (file_names contents))
     @ concat (map (\<lambda>n. case n of
                           Dir d sub \<Rightarrow> if exclude d then []
                                        else kept_paths exclude keep (os_path_join top_dir [d]) sub
                         | File f \<Rightarrow> [])
                    contents)"

declare kept_paths.simps [simp del]

text \<open>
  Settings that exclude the folders named \<open>node_modules\<close>, the class attributes
  that \<open>initialize\<close> computes from them, and a project tree with such a folder.
\<close>

definition pruning_settings :: settings where
  "pruning_settings = example_settings\<lparr> s_folder_exclude_patterns := Some [''node_modules''] \<rparr>"

definition pruning_browser :: browser where
  "pruning_browser =
     example_browser\<lparr> exclude_folder :=
       re_match (Seq Bol (Seq (build_seq (map glob_item ''node_modules'')) Eol)) \<rparr>"

definition pruning_fs :: filesystem where
  "pruning_fs =
     example_fs\<lparr> tree := (\<lambda>p.
       if p = ''/proj'' then
         [File ''main.ext'',
          Dir ''node_modules'' [File ''dep.ext'', Dir ''lib'' [File ''deep.ext'']],
          Dir ''src'' [File ''a.ext'']]
       else if p = ''/proj/node_modules'' then
         [File ''dep.ext'', Dir ''lib'' [File ''deep.ext'']]
       else []) \<rparr>"

subsection \<open>The two paths of an entry and the panels of a session\<close>














section \<open>Theorems\<close>

subsection \<open>The progress animation\<close>

lemma py_repeat_space: "py_repeat '' '' n = replicate (nat n) CHR '' ''"
  by (induction "nat n" arbitrary: n) (auto simp: py_repeat_def)

lemma ticks_Suc: "ticks (Suc n) = update_status_bar (ticks n)"
  by (simp add: ticks_def)

lemma ticks_add: "ticks (m + n) = (update_status_bar ^^ m) (ticks n)"
  by (simp add: ticks_def funpow_add)

lemma ticks_0: "ticks 0 = StatusBarThread_init"
  by (simp add: ticks_def)

lemma update_state_step:
  "state (update_status_bar t) = state t + (if state t = 0 \<or> state t = 7 then - step t else step t)"
  "step (update_status_bar t) = (if state t = 0 \<or> state t = 7 then - step t else step t)"
  by (simp_all add: update_status_bar_def Let_def)

lemma update_status:
  "status (update_status_bar t) = frame (state (update_status_bar t))"
  by (simp add: update_status_bar_def Let_def frame_def py_repeat_space)

lemma ticks_values:
  "state (ticks 1) = 6" "state (ticks 7) = 0" "state (ticks 8) = 1"
  "state (ticks 14) = 7" "step (ticks 14) = 1"
  by (simp_all add: ticks_def StatusBarThread_init_def eval_nat_numeral update_status_bar_def Let_def)

lemma update_invariant:
  assumes "(step t = 1 \<and> 1 \<le> state t \<and> state t \<le> 7)
           \<or> (step t = - 1 \<and> 0 \<le> state t \<and> state t \<le> 6)"
  shows "(step (update_status_bar t) = 1 \<and> 1 \<le> state (update_status_bar t)
            \<and> state (update_status_bar t) \<le> 7)
         \<or> (step (update_status_bar t) = - 1 \<and> 0 \<le> state (update_status_bar t)
            \<and> state (update_status_bar t) \<le> 6)"
proof (cases "state t = 0 \<or> state t = 7")
  case True
  with assms show ?thesis by (auto simp: update_state_step)
next
  case False
  with assms show ?thesis by (simp add: update_state_step) arith
qed

lemma ticks_invariant:
  "(step (ticks n) = 1 \<and> 1 \<le> state (ticks n) \<and> state (ticks n) \<le> 7)
   \<or> (step (ticks n) = - 1 \<and> 0 \<le> state (ticks n) \<and> state (ticks n) \<le> 6)"
proof (induction n)
  case 0
  show ?case by (simp add: ticks_0 StatusBarThread_init_def)
next
  case (Suc n)
  then show ?case
    unfolding ticks_Suc by (rule update_invariant)
qed

lemma ticks_period:
  "state (ticks (n + 14)) = state (ticks n) \<and> step (ticks (n + 14)) = step (ticks n)"
proof (induction n)
  case 0
  show ?case by (simp add: ticks_values ticks_0 StatusBarThread_init_def)
next
  case (Suc n)
  have "ticks (Suc n + 14) = update_status_bar (ticks (n + 14))"
    by (simp only: add_Suc ticks_Suc)
  with Suc show ?case
    by (simp add: ticks_Suc update_state_step)
qed

text \<open>
  C4, as the specification states it: at tick 0 the marker is at column 0, after 7
  ticks at column 7, after 8 ticks at column 6. The constructor puts the marker at
  column 7, so the three positions are not those of the code.
\<close>

theorem progress_animator_claimed_positions_fail:
  "\<not> (state (ticks 0) = 0 \<and> state (ticks 7) = 7 \<and> state (ticks 8) = 6)"
  by (simp add: ticks_0 StatusBarThread_init_def)

text \<open>
  C4, amended: the marker starts at column 7 with step 1, which the first tick
  reverses; after 1 tick it is at column 6, after 7 ticks at column 0 (leftmost),
  after 8 ticks the direction has reversed and it is at column 1; the position stays
  between 0 and 7 and is periodic in the tick count with period 14; and the frame
  after every tick is an opening bracket, as many spaces as the position, the
  marker, the spaces that fill up to 7, and a closing bracket, so that it is a
  function of the tick count alone.
\<close>

theorem progress_animator_positions:
  "state (ticks 0) = 7 \<and> step (ticks 0) = 1
   \<and> state (ticks 1) = 6 \<and> state (ticks 7) = 0 \<and> state (ticks 8) = 1
   \<and> (\<forall>n. 0 \<le> state (ticks n) \<and> state (ticks n) \<le> 7)
   \<and> (\<forall>n. state (ticks (n + 14)) = state (ticks n))
   \<and> (\<forall>n. status (ticks (Suc n))
            = ''['' @ replicate (nat (state (ticks (Suc n)))) CHR '' '' @ ''=''
              @ replicate (nat (7 - state (ticks (Suc n)))) CHR '' '' @ '']'')"
proof -
  have bounds: "\<forall>n. 0 \<le> state (ticks n) \<and> state (ticks n) \<le> 7"
  proof
    fix n
    show "0 \<le> state (ticks n) \<and> state (ticks n) \<le> 7"
      using ticks_invariant [of n] by arith
  qed
  have frames: "\<forall>n. status (ticks (Suc n)) = frame (state (ticks (Suc n)))"
    by (simp add: ticks_Suc update_status)
  have start: "state (ticks 0) = 7 \<and> step (ticks 0) = 1"
    by (simp add: ticks_0 StatusBarThread_init_def)
  have period: "\<forall>n. state (ticks (n + 14)) = state (ticks n)"
    using ticks_period by blast
  from start ticks_values(1,2,3) bounds period frames [unfolded frame_def]
  show ?thesis by blast
qed

subsection \<open>The listings return\<close>

lemma relpath_total: "path \<noteq> [] \<Longrightarrow> \<exists>r. relpath cwd path start = Inr r"
  by (simp add: relpath_def Let_def split: list.splits)

lemma normpath_nonempty: "normpath p \<noteq> []"
  by (simp add: normpath_def Let_def)

lemma abspath_nonempty: "abspath cwd p \<noteq> []"
  by (simp add: abspath_def normpath_nonempty)

lemma join_step_nonempty: "a \<noteq> [] \<Longrightarrow> join_step a b \<noteq> []"
  by (auto simp: join_step_def startswith_def)

lemma join_path_nonempty: "a \<noteq> [] \<Longrightarrow> join_path a b \<noteq> []"
  by (simp add: join_path_def os_path_join_def join_step_nonempty)

lemma build_has_wildcard: "\<exists>v. build_file_type_icons fts (Some ''.*'') = Some v"
  by (auto simp: build_file_type_icons_def Let_def)

lemma build_has_directory: "\<exists>v. build_file_type_icons fts None = Some v"
  by (auto simp: build_file_type_icons_def Let_def)

lemma make_item_ok:
  assumes "absolute \<noteq> []" and "file_type_icons b ext = Some v"
  shows "\<exists>actions rel. relpath (getcwd fs) absolute (init_path self) = Inr rel
          \<and> make_item b fs self entry absolute ext k
             = Inr \<lparr> trigger = entry, details = Joined actions, annotation = name v, kind = k \<rparr>"
proof -
  from assms(1) obtain rel where "relpath (getcwd fs) absolute (init_path self) = Inr rel"
    using relpath_total by blast
  with assms(2) show ?thesis
    by (simp add: make_item_def action_tags_def lookup_icon_def Let_def)
qed

declare browse_loop.simps [simp del]

lemma browse_loop_step:
  assumes "entry \<noteq> []"
  shows "browse_loop b fs self curdir (entry # entries) acc =
    (if hd entry = CHR ''.'' \<and> \<not> show_hidden_files b then browse_loop b fs self curdir entries acc
     else if isfile fs (join_path curdir entry) then
       (if snd (splitext entry) \<in> set (ignored_file_types b) then browse_loop b fs self curdir entries acc
        else (case make_item b fs self entry (join_path curdir entry)
                     (Some (known_or_wildcard (file_type_icons b) (snd (splitext entry)))) KIND_FILE of
                Inl e \<Rightarrow> Inl e
              | Inr item \<Rightarrow> browse_loop b fs self curdir entries
                              (fst acc @ [join_path curdir entry], snd acc @ [item])))
     else (case make_item b fs self entry (join_path curdir entry) None KIND_DIRECTORY of
             Inl e \<Rightarrow> Inl e
           | Inr item \<Rightarrow> browse_loop b fs self curdir entries
                           (fst acc @ [join_path curdir entry], snd acc @ [item])))"
proof (cases entry)
  case Nil
  with assms show ?thesis by simp
next
  case (Cons c cs)
  show ?thesis unfolding Cons by (simp add: browse_loop.simps Let_def)
qed

lemma browse_loop_ok:
  assumes "curdir \<noteq> []" and "\<forall>e \<in> set entries. e \<noteq> []"
    and "file_type_icons b None \<noteq> None" and "file_type_icons b (Some ''.*'') \<noteq> None"
  shows "\<exists>ps is. browse_loop b fs self curdir entries acc = Inr (fst acc @ ps, snd acc @ is)
           \<and> length ps = length is"
  using assms(2)
proof (induction entries arbitrary: acc)
  case Nil
  show ?case by (intro exI [of _ "[]"]) (simp add: browse_loop.simps)
next
  case (Cons entry entries)
  then have entry: "entry \<noteq> []" by simp
  have IH: "\<And>acc'. \<exists>ps is. browse_loop b fs self curdir entries acc' = Inr (fst acc' @ ps, snd acc' @ is)
           \<and> length ps = length is"
    using Cons by simp
  let ?abs = "join_path curdir entry"
  have abs: "?abs \<noteq> []" using assms(1) by (rule join_path_nonempty)
  have appended: "\<exists>ps is. browse_loop b fs self curdir entries (fst acc @ [?abs], snd acc @ [item])
            = Inr (fst acc @ ps, snd acc @ is) \<and> length ps = length is" for item
  proof -
    from IH [of "(fst acc @ [?abs], snd acc @ [item])"] obtain ps "is" where
      "browse_loop b fs self curdir entries (fst acc @ [?abs], snd acc @ [item])
         = Inr (fst acc @ (?abs # ps), snd acc @ (item # is))" "length (?abs # ps) = length (item # is)"
      by auto
    then show ?thesis by blast
  qed
  let ?ext = "snd (splitext entry)"
  let ?key = "Some (known_or_wildcard (file_type_icons b) ?ext)"
  from assms(4) obtain v where "file_type_icons b ?key = Some v"
    by (cases "file_type_icons b (Some ?ext)") (auto simp: known_or_wildcard_def)
  from make_item_ok [OF abs this] obtain item1 where
    item1: "make_item b fs self entry ?abs ?key KIND_FILE = Inr item1" by blast
  from assms(3) obtain u where "file_type_icons b None = Some u" by auto
  from make_item_ok [OF abs this] obtain item2 where
    item2: "make_item b fs self entry ?abs None KIND_DIRECTORY = Inr item2" by blast
  show ?case
    unfolding browse_loop_step [OF entry]
    using IH [of acc] appended [of item1] appended [of item2] item1 item2
    by simp
qed

lemma initialize_icons:
  assumes "initialize s = Some (b, dialogs)"
  shows "file_type_icons b = build_file_type_icons (get_default (s_file_types s) [])"
  using assms by (auto simp: initialize_def split: option.splits prod.splits)

lemma browse_returns:
  assumes dir: "listdir fs D = Inr entries" and D: "D \<noteq> []"
    and names: "\<forall>e \<in> set entries. e \<noteq> []"
    and d: "file_type_icons b None = Some folder" and w: "file_type_icons b (Some ''.*'') \<noteq> None"
  shows "\<exists>paths items a0 a1.
           browse b fs self D
             = Inr (abspath (getcwd fs) (os_path_join D [''..'']) # D # paths,
                    \<lparr> trigger = ''..'', details = Joined a0,
                      annotation = ''parent '' @ name folder, kind = KIND_DIRECTORY \<rparr>
                    # \<lparr> trigger = D, details = Joined a1,
                        annotation = ''current '' @ name folder, kind = KIND_DIRECTORY \<rparr>
                    # items, D)
           \<and> length paths = length items"
proof -
  let ?pardir = "abspath (getcwd fs) (os_path_join D [''..''])"
  from make_item_ok [OF abspath_nonempty d]
  obtain a0 where i0: "make_item b fs self ''..'' ?pardir None KIND_DIRECTORY
    = Inr \<lparr> trigger = ''..'', details = Joined a0, annotation = name folder, kind = KIND_DIRECTORY \<rparr>"
    by blast
  from make_item_ok [OF D d]
  obtain a1 where i1: "make_item b fs self D D None KIND_DIRECTORY
    = Inr \<lparr> trigger = D, details = Joined a1, annotation = name folder, kind = KIND_DIRECTORY \<rparr>"
    by blast
  from d have d': "file_type_icons b None \<noteq> None" by simp
  let ?acc = "([?pardir, D],
         [\<lparr> trigger = ''..'', details = Joined a0, annotation = ''parent '' @ name folder, kind = KIND_DIRECTORY \<rparr>,
          \<lparr> trigger = D, details = Joined a1, annotation = ''current '' @ name folder, kind = KIND_DIRECTORY \<rparr>])"
  from browse_loop_ok [OF D names d' w, where acc = ?acc and fs = fs and self = self]
  obtain ps "is" where
    loop: "browse_loop b fs self D entries ?acc = Inr (fst ?acc @ ps, snd ?acc @ is)"
     and len: "length ps = length is"
    by blast
  have "browse b fs self D
             = Inr (?pardir # D # ps,
                    \<lparr> trigger = ''..'', details = Joined a0,
                      annotation = ''parent '' @ name folder, kind = KIND_DIRECTORY \<rparr>
                    # \<lparr> trigger = D, details = Joined a1,
                        annotation = ''current '' @ name folder, kind = KIND_DIRECTORY \<rparr>
                    # is, D)"
    using loop by (simp add: browse_def normalize_path_def i0 i1 dir)
  with len show ?thesis by blast
qed

lemma initialize_example: "initialize example_settings = Some (example_browser, [])"
  by (simp add: initialize_def example_settings_def example_browser_def get_default_def
      pat2regex_def re_compile_def step_normal_def push_item_def close_frame_def)

text \<open>
  C1: for a directory \<open>D\<close> that can be read (\<open>os.listdir\<close> answers, with names that
  are not empty, for a path that is not empty) and class attributes set by
  \<open>initialize\<close>, \<open>browse\<close> returns a listing of at least two items, whatever the
  directory holds; the first is the parent entry (\<open>..\<close>, the absolute path of
  \<open>D/..\<close>), the second the current entry (\<open>D\<close> itself); both have the directory
  kind, and their annotations are the directory category's name after \<open>parent\<close>
  and after \<open>current\<close>, which differ.
\<close>

theorem browse_parent_and_current_first:
  assumes "initialize s = Some (b, dialogs)"
    and "listdir fs D = Inr entries" and "D \<noteq> []" and "\<forall>e \<in> set entries. e \<noteq> []"
  shows "\<exists>paths items folder.
           browse b fs self D = Inr (paths, items, D)
           \<and> 2 \<le> length items \<and> length paths = length items
           \<and> paths ! 0 = abspath (getcwd fs) (os_path_join D [''..''])
           \<and> trigger (items ! 0) = ''..''
           \<and> paths ! 1 = D \<and> trigger (items ! 1) = D
           \<and> kind (items ! 0) = KIND_DIRECTORY \<and> kind (items ! 1) = KIND_DIRECTORY
           \<and> file_type_icons b None = Some folder
           \<and> annotation (items ! 0) = ''parent '' @ name folder
           \<and> annotation (items ! 1) = ''current '' @ name folder
           \<and> annotation (items ! 0) \<noteq> annotation (items ! 1)"
proof -
  have icons: "file_type_icons b = build_file_type_icons (get_default (s_file_types s) [])"
    using assms(1) by (rule initialize_icons)
  obtain folder where d: "file_type_icons b None = Some folder"
    using build_has_directory icons by metis
  have w: "file_type_icons b (Some ''.*'') \<noteq> None"
    using build_has_wildcard [of "get_default (s_file_types s) []"] icons by auto
  from browse_returns [OF assms(2,3,4) d w] obtain ps "is" a0 a1 where
    "browse b fs self D
       = Inr (abspath (getcwd fs) (os_path_join D [''..'']) # D # ps,
              \<lparr> trigger = ''..'', details = Joined a0,
                annotation = ''parent '' @ name folder, kind = KIND_DIRECTORY \<rparr>
              # \<lparr> trigger = D, details = Joined a1,
                  annotation = ''current '' @ name folder, kind = KIND_DIRECTORY \<rparr>
              # is, D)"
    and "length ps = length is"
    by blast
  with d show ?thesis by simp
qed

theorem browse_parent_and_current_first_witness:
  "\<exists>paths items.
     browse example_browser example_fs example_session ''/proj/src'' = Inr (paths, items, ''/proj/src'')
     \<and> 2 \<le> length items
     \<and> paths ! 0 = ''/proj'' \<and> trigger (items ! 0) = ''..''
     \<and> paths ! 1 = ''/proj/src'' \<and> trigger (items ! 1) = ''/proj/src''
     \<and> kind (items ! 0) = KIND_DIRECTORY \<and> kind (items ! 1) = KIND_DIRECTORY
     \<and> annotation (items ! 0) = ''parent folder''
     \<and> annotation (items ! 1) = ''current folder''"
proof -
  have 1: "listdir example_fs ''/proj/src'' = Inr [''main.ext'', ''lib'']"
    by (simp add: example_fs_def)
  have 2: "''/proj/src'' \<noteq> []" by simp
  have 3: "\<forall>e \<in> set [''main.ext'', ''lib'']. e \<noteq> []" by simp
  have 4: "abspath (getcwd example_fs) (os_path_join ''/proj/src'' [''..'']) = ''/proj''"
    by (simp add: example_fs_def abspath_def os_path_join_def join_step_def startswith_def
        endswith_def isabs_def normpath_def normpath_step_def Let_def)
  have 5: "file_type_icons example_browser None = Some \<lparr> name = ''folder'', icon = ''Open'' \<rparr>"
    by (simp add: example_browser_def build_file_type_icons_def Let_def)
  from browse_parent_and_current_first [OF initialize_example 1 2 3, of example_session]
  show ?thesis unfolding 4 5 by auto
qed

subsection \<open>The table of saved paths\<close>

text \<open>
  C10: the save command in window \<open>wid\<close> leaves the table as it is when the window
  has no entry, although it reports \<open>Saved <path>\<close>; when the window has an
  entry, the path is appended at the end of its list; in both cases the entry of
  every other window is what it was, and nothing else in the world changes but the
  status line.
\<close>

theorem save_path_only_for_open_session:
  "(path_list w wid = None \<longrightarrow> path_list (save_path_run wid path w) = path_list w)
   \<and> (\<forall>saved. path_list w wid = Some saved
          \<longrightarrow> path_list (save_path_run wid path w) wid = Some (saved @ [path]))
   \<and> (\<forall>other. other \<noteq> wid \<longrightarrow> path_list (save_path_run wid path w) other = path_list w other)
   \<and> status_messages (save_path_run wid path w) = status_messages w @ [''Saved '' @ path]
   \<and> clipboard (save_path_run wid path w) = clipboard w
   \<and> quick_panel (save_path_run wid path w) = quick_panel w"
  by (cases "path_list w wid") (simp_all add: save_path_run_def status_message_def)

theorem save_path_only_for_open_session_witness:
  "path_list (save_path_run 2 ''/x'' example_world) = path_list example_world
   \<and> path_list (save_path_run 1 ''/x'' example_world) 1 = Some [''a'', ''b'', ''/x'']
   \<and> path_list (save_path_run 1 ''/x'' example_world) 2 = path_list example_world 2
   \<and> status_messages (save_path_run 2 ''/x'' example_world) = [''Saved /x'']"
proof -
  have absent: "path_list example_world 2 = None"
    and present: "path_list example_world 1 = Some [''a'', ''b'']"
    and quiet: "status_messages example_world = []"
    by (simp_all add: example_world_def)
  from save_path_only_for_open_session [of example_world 2 "''/x''"]
       save_path_only_for_open_session [of example_world 1 "''/x''"]
       absent present quiet
  show ?thesis by simp
qed

text \<open>
  C8: when the panel is dismissed (index \<open>-1\<close>) and the table holds the list
  \<open>saved\<close> for the session's window, the callback returns; the window's entry is
  removed from the table, so that a query of it gives the empty list, and no other
  entry changes; when \<open>saved\<close> is not empty, the clipboard holds its paths joined
  by newlines and the status line reports their count; when it is empty, the
  clipboard and the status line are left alone. For \<open>saved = [a, b]\<close> the
  clipboard holds \<open>a\<close>, a newline, \<open>b\<close>, and the report is \<open>Copied 2 paths\<close>.
\<close>

theorem dismissal_copies_saved_paths:
  assumes "path_list w (window self) = Some saved"
  shows "\<exists>w'. on_done b fs self shown (- 1) primary w = Inr w'
           \<and> path_list w' (window self) = None
           \<and> saved_paths w' (window self) = []
           \<and> (\<forall>other. other \<noteq> window self \<longrightarrow> path_list w' other = path_list w other)
           \<and> (saved \<noteq> [] \<longrightarrow>
                 clipboard w' = str_join [newline] saved
                 \<and> status_messages w'
                     = status_messages w @ [''Copied '' @ str_nat (length saved) @ '' paths''])
           \<and> (saved = [] \<longrightarrow>
                 clipboard w' = clipboard w \<and> status_messages w' = status_messages w)
           \<and> (saved = [''a'', ''b''] \<longrightarrow>
                 clipboard w' = ''a'' @ [newline] @ ''b''
                 \<and> status_messages w' = status_messages w @ [''Copied 2 paths''])"
proof (cases "saved = []")
  case True
  with assms show ?thesis
    by (simp add: on_done_def Let_def saved_paths_def)
next
  case False
  have two: "str_nat (Suc (Suc 0)) = ''2''"
    by (simp add: str_nat.simps digit_char_def)
  from False assms show ?thesis
    by (auto simp: on_done_def Let_def saved_paths_def status_message_def two)
qed

theorem dismissal_copies_saved_paths_witness:
  "\<exists>w'. on_done example_browser example_fs example_session ([], [], ''/proj/src'') (- 1) False
            example_world = Inr w'
         \<and> clipboard w' = ''a'' @ [newline] @ ''b''
         \<and> status_messages w' = [''Copied 2 paths'']
         \<and> saved_paths w' 1 = []"
proof -
  have saved: "path_list example_world (window example_session) = Some [''a'', ''b'']"
    and quiet: "status_messages example_world = []"
    and one: "window example_session = 1"
    by (simp_all add: example_world_def example_session_def)
  from dismissal_copies_saved_paths [OF saved, of example_browser example_fs
      "([], [], ''/proj/src'')" False]
  show ?thesis unfolding quiet one by auto
qed

subsection \<open>Selecting a directory that cannot be listed\<close>

lemmas path_eval =
  relpath_def abspath_def isabs_def startswith_def endswith_def normpath_def normpath_step_def
  os_path_join_def join_step_def join_path_def normalize_path_def splitext_def
  splitext_loop.simps Let_def

lemmas browse_eval =
  browse_def make_item_def action_tags_def lookup_icon_def known_or_wildcard_def
  build_file_type_icons_def browse_loop.simps

lemma browse_loop_extends:
  "browse_loop b fs self curdir entries acc = Inr r
   \<Longrightarrow> \<exists>ps is. r = (fst acc @ ps, snd acc @ is) \<and> length ps = length is"
proof (induction entries arbitrary: acc)
  case Nil
  then have "r = (fst acc @ [], snd acc @ [])" by (simp add: browse_loop.simps)
  then show ?case by (metis list.size(3))
next
  case (Cons entry entries)
  have entry: "entry \<noteq> []"
    using Cons.prems by (cases entry) (simp_all add: browse_loop.simps)
  have appended: "\<exists>ps is. r = (fst acc @ ps, snd acc @ is) \<and> length ps = length is"
    if "browse_loop b fs self curdir entries (fst acc @ [p], snd acc @ [i]) = Inr r" for p i
  proof -
    from Cons.IH [OF that] obtain ps "is" where
      "r = (fst acc @ (p # ps), snd acc @ (i # is))" "length (p # ps) = length (i # is)"
      by auto
    then show ?thesis by blast
  qed
  from Cons.prems show ?case
    unfolding browse_loop_step [OF entry]
    by (auto split: if_splits sum.splits dest: Cons.IH appended)
qed

lemma browse_shape:
  assumes "browse b fs self d = Inr (paths, items, curdir)"
  shows "curdir = d \<and> length paths = length items \<and> 2 \<le> length paths \<and> paths ! 1 = d"
proof -
  let ?pardir = "abspath (getcwd fs) (os_path_join d [''..''])"
  obtain i0 where i0: "make_item b fs self ''..'' ?pardir None KIND_DIRECTORY = Inr i0"
    using assms by (cases "make_item b fs self ''..'' ?pardir None KIND_DIRECTORY")
      (simp_all add: browse_def normalize_path_def)
  obtain i1 where i1: "make_item b fs self d d None KIND_DIRECTORY = Inr i1"
    using assms i0 by (cases "make_item b fs self d d None KIND_DIRECTORY")
      (simp_all add: browse_def normalize_path_def)
  obtain entries where entries: "listdir fs d = Inr entries"
    using assms i0 i1 by (cases "listdir fs d") (simp_all add: browse_def normalize_path_def)
  let ?acc = "([?pardir, d], [i0\<lparr>annotation := ''parent '' @ annotation i0\<rparr>,
                              i1\<lparr>annotation := ''current '' @ annotation i1\<rparr>])"
  obtain r where loop: "browse_loop b fs self d entries ?acc = Inr r"
    using assms i0 i1 entries by (cases "browse_loop b fs self d entries ?acc")
      (simp_all add: browse_def normalize_path_def)
  with assms i0 i1 entries have r: "r = (paths, items)" and "curdir = d"
    by (simp_all add: browse_def normalize_path_def split: prod.splits)
  moreover from browse_loop_extends [OF loop] obtain ps "is" where
    "r = (fst ?acc @ ps, snd ?acc @ is)" "length ps = length is"
    by blast
  ultimately show ?thesis by auto
qed

text \<open>
  C9: the panel shows the listing that \<open>browse\<close> made of \<open>d\<close>; the entry selected is
  a directory, and listing it raises \<open>e\<close> (so it is not the current entry, whose
  listing is the one on display). Then the callback returns; the status line
  receives \<open>str(e)\<close>; the panel is shown again with the same paths, the same items
  and the same directory; and the table of saved paths, the clipboard, the opened
  files and the dialogs are what they were. The anchor \<open>init_path\<close> belongs to the
  session, which the callback cannot change.
\<close>

theorem failed_descent_keeps_listing:
  assumes "browse b fs self d = Inr (paths, items, curdir)"
    and "0 \<le> index" and "index < int (length items)"
    and "kind (items ! nat index) = KIND_DIRECTORY"
    and "browse b fs self (paths ! nat index) = Inl e"
  shows "\<exists>w'. on_done b fs self (paths, items, curdir) index primary w = Inr w'
           \<and> status_messages w' = status_messages w @ [str_error e]
           \<and> quick_panel w' = Some (paths, items, d)
           \<and> path_list w' = path_list w
           \<and> clipboard w' = clipboard w
           \<and> opened_files w' = opened_files w
           \<and> error_messages w' = error_messages w
           \<and> paths ! nat index \<noteq> paths ! 1"
proof -
  from browse_shape [OF assms(1)] have shape:
    "curdir = d" "length paths = length items" "paths ! 1 = d"
    by simp_all
  have other: "paths ! nat index \<noteq> d"
    using assms(1,5) by auto
  have path: "py_index paths index = Inr (paths ! nat index)"
    and item: "py_index items index = Inr (items ! nat index)"
    using assms(2,3) shape(2) by (simp_all add: py_index_def)
  have dir: "kind (items ! nat index) \<noteq> KIND_FILE"
    using assms(4) by (simp add: KIND_FILE_def KIND_DIRECTORY_def)
  have minus: "index \<noteq> - 1" using assms(2) by simp
  show ?thesis
    using other dir minus assms(5) shape
    by (simp add: on_done_def path item Let_def show_quick_panel_def status_message_def)
qed

theorem failed_descent_keeps_listing_witness:
  "\<exists>items w'.
     browse example_browser example_fs example_session ''/proj/src''
       = Inr ([''/proj'', ''/proj/src'', ''/proj/src/main.ext'', ''/proj/src/lib''], items, ''/proj/src'')
     \<and> on_done example_browser example_fs example_session
          ([''/proj'', ''/proj/src'', ''/proj/src/main.ext'', ''/proj/src/lib''], items, ''/proj/src'')
          3 False example_world = Inr w'
     \<and> status_messages w' = [''[Errno 13] Permission denied'']
     \<and> quick_panel w'
         = Some ([''/proj'', ''/proj/src'', ''/proj/src/main.ext'', ''/proj/src/lib''], items, ''/proj/src'')
     \<and> path_list w' = path_list example_world"
proof -
  let ?paths = "[''/proj'', ''/proj/src'', ''/proj/src/main.ext'', ''/proj/src/lib'']"
  have "\<exists>i0 i1 i2 i3. browse example_browser example_fs example_session ''/proj/src''
               = Inr (?paths, [i0, i1, i2, i3], ''/proj/src'') \<and> kind i3 = KIND_DIRECTORY"
    by (simp add: browse_eval path_eval example_browser_def example_fs_def example_session_def)
  then obtain i0 i1 i2 i3 where
    listing: "browse example_browser example_fs example_session ''/proj/src''
               = Inr (?paths, [i0, i1, i2, i3], ''/proj/src'')"
    and 3: "kind ([i0, i1, i2, i3] ! nat 3) = KIND_DIRECTORY"
    by (auto simp: eval_nat_numeral)
  have 1: "(0::int) \<le> 3" and 2: "3 < int (length [i0, i1, i2, i3])"
    by simp_all
  have 4: "browse example_browser example_fs example_session (?paths ! nat 3)
            = Inl (OSError ''[Errno 13] Permission denied'')"
    by (simp add: browse_eval path_eval example_browser_def example_fs_def example_session_def
        eval_nat_numeral)
  have quiet: "status_messages example_world = []"
    by (simp add: example_world_def)
  from failed_descent_keeps_listing [OF listing 1 2 3 4, of False example_world]
  obtain w' where
    "on_done example_browser example_fs example_session (?paths, [i0, i1, i2, i3], ''/proj/src'')
       3 False example_world = Inr w'"
    "status_messages w' = [''[Errno 13] Permission denied'']"
    "quick_panel w' = Some (?paths, [i0, i1, i2, i3], ''/proj/src'')"
    "path_list w' = path_list example_world"
    unfolding quiet by auto
  with listing show ?thesis by blast
qed

subsection \<open>The classifier\<close>

lemma build_keeps_configured:
  "foldl add_file_type Map.empty fts k = Some v \<Longrightarrow> build_file_type_icons fts k = Some v"
  by (auto simp: build_file_type_icons_def Let_def)

lemma build_absent:
  assumes "foldl add_file_type Map.empty fts k = None"
  shows "build_file_type_icons fts k =
     (if k = Some ''.*'' then Some \<lparr> name = ''file'', icon = ''Open'' \<rparr>
      else if k = None then Some \<lparr> name = ''folder'', icon = ''Open'' \<rparr> else None)"
  using assms by (auto simp: build_file_type_icons_def Let_def)

lemma known_or_wildcard_present:
  "t (Some ''.*'') \<noteq> None \<Longrightarrow> t (Some (known_or_wildcard t ext)) \<noteq> None"
  by (simp add: known_or_wildcard_def)

lemma relpath_no_KeyError: "relpath cwd p start \<noteq> Inl (KeyError m)"
  by (simp add: relpath_def Let_def split: list.splits)

lemma make_item_no_KeyError:
  assumes "file_type_icons b ext \<noteq> None"
  shows "make_item b fs self entry absolute ext k \<noteq> Inl (KeyError m)"
proof (cases "relpath (getcwd fs) absolute (init_path self)")
  case (Inl e)
  with relpath_no_KeyError [of "getcwd fs" absolute "init_path self" m] show ?thesis
    by (simp add: make_item_def)
next
  case (Inr rel)
  with assms show ?thesis
    by (auto simp: make_item_def action_tags_def lookup_icon_def Let_def)
qed

declare list_files_loop.simps [simp del]

lemma list_files_loop_step:
  "list_files_loop b fs self root (f # files) acc =
     (if exclude_file b f \<or> snd (splitext f) \<in> set (ignored_file_types b)
      then list_files_loop b fs self root files acc
      else (case relpath (getcwd fs) (os_path_join root [f]) (init_path self) of
              Inl e \<Rightarrow> Inl e
            | Inr rel \<Rightarrow>
               (case lookup_icon (file_type_icons b)
                       (Some (known_or_wildcard (file_type_icons b) (snd (splitext f)))) of
                  Inl e \<Rightarrow> Inl e
                | Inr file_type_icon \<Rightarrow>
                    list_files_loop b fs self root files
                      (fst acc @ [os_path_join root [f]],
                       snd acc @ [\<lparr> trigger = f,
                          details = Relative_and_joined rel
                            [make_tags ''Copy'' (save_path_url (os_path_join root [f])) (save_path_url rel),
                             make_tags ''Insert'' (insert_path_url (os_path_join root [f])) (insert_path_url rel),
                             open_tag (command_url ''quick_file_browser_open_file''
                                 [(''path'', Str_arg (os_path_join root [f])),
                                  (''open_in_sublime'',
                                   Bool_arg (known_or_wildcard (file_type_icons b) (snd (splitext f)) = ''.*''))])
                               (icon file_type_icon)],
                          annotation = name file_type_icon,
                          kind = KIND_FILE \<rparr>]))))"
  by (simp add: list_files_loop.simps Let_def normalize_path_def action_tags_def
      split: sum.splits)


lemma browse_loop_no_KeyError:
  assumes "file_type_icons b None \<noteq> None" and "file_type_icons b (Some ''.*'') \<noteq> None"
  shows "browse_loop b fs self curdir entries acc \<noteq> Inl (KeyError m)"
proof (induction entries arbitrary: acc)
  case Nil
  show ?case by (simp add: browse_loop.simps)
next
  case (Cons entry entries)
  show ?case
  proof (cases "entry = []")
    case True
    then show ?thesis by (simp add: browse_loop.simps)
  next
    case False
    have on_file: "make_item b fs self entry (join_path curdir entry)
            (Some (known_or_wildcard (file_type_icons b) (snd (splitext entry)))) KIND_FILE
          \<noteq> Inl (KeyError m)"
      using known_or_wildcard_present [of "file_type_icons b", OF assms(2)]
      by (rule make_item_no_KeyError)
    have on_dir: "make_item b fs self entry (join_path curdir entry) None KIND_DIRECTORY
          \<noteq> Inl (KeyError m)"
      using assms(1) by (rule make_item_no_KeyError)
    show ?thesis
    proof (cases "isfile fs (join_path curdir entry)")
      case True
      with on_file Cons.IH show ?thesis
        unfolding browse_loop_step [OF False]
        by (cases "make_item b fs self entry (join_path curdir entry)
            (Some (known_or_wildcard (file_type_icons b) (snd (splitext entry)))) KIND_FILE")
           simp_all
    next
      case False
      with on_dir Cons.IH show ?thesis
        unfolding browse_loop_step [OF \<open>entry \<noteq> []\<close>]
        by (cases "make_item b fs self entry (join_path curdir entry) None KIND_DIRECTORY")
           simp_all
    qed
  qed
qed

lemma browse_no_KeyError:
  assumes "file_type_icons b None \<noteq> None" and "file_type_icons b (Some ''.*'') \<noteq> None"
  shows "browse b fs self d \<noteq> Inl (KeyError m)"
proof -
  let ?pardir = "abspath (getcwd fs) (os_path_join d [''..''])"
  have 0: "make_item b fs self ''..'' ?pardir None KIND_DIRECTORY \<noteq> Inl (KeyError m)"
    and 1: "make_item b fs self d d None KIND_DIRECTORY \<noteq> Inl (KeyError m)"
    using assms(1) by (rule make_item_no_KeyError)+
  have 2: "browse_loop b fs self d entries acc \<noteq> Inl (KeyError m)" for entries acc
    using assms by (rule browse_loop_no_KeyError)
  show ?thesis
  proof
    assume raised: "browse b fs self d = Inl (KeyError m)"
    obtain i0 where i0: "make_item b fs self ''..'' ?pardir None KIND_DIRECTORY = Inr i0"
      using raised 0 by (cases "make_item b fs self ''..'' ?pardir None KIND_DIRECTORY")
        (simp_all add: browse_def normalize_path_def)
    obtain i1 where i1: "make_item b fs self d d None KIND_DIRECTORY = Inr i1"
      using raised i0 1 by (cases "make_item b fs self d d None KIND_DIRECTORY")
        (simp_all add: browse_def normalize_path_def)
    obtain entries where entries: "listdir fs d = Inr entries"
      using raised i0 i1 by (cases "listdir fs d") (simp_all add: browse_def normalize_path_def)
    let ?acc = "([?pardir, d], [i0\<lparr>annotation := ''parent '' @ annotation i0\<rparr>,
                                i1\<lparr>annotation := ''current '' @ annotation i1\<rparr>])"
    from raised i0 i1 entries 2 [of entries ?acc] show False
      by (cases "browse_loop b fs self d entries ?acc")
        (simp_all add: browse_def normalize_path_def split: prod.splits)
  qed
qed

lemma list_files_loop_no_KeyError:
  assumes "file_type_icons b (Some ''.*'') \<noteq> None"
  shows "list_files_loop b fs self root files acc \<noteq> Inl (KeyError m)"
proof (induction files arbitrary: acc)
  case Nil
  show ?case by (simp add: list_files_loop.simps)
next
  case (Cons f files)
  let ?ext = "known_or_wildcard (file_type_icons b) (snd (splitext f))"
  have "file_type_icons b (Some ?ext) \<noteq> None"
    using known_or_wildcard_present [of "file_type_icons b", OF assms] .
  then obtain v where v: "lookup_icon (file_type_icons b) (Some ?ext) = Inr v"
    by (auto simp: lookup_icon_def)
  show ?case
  proof (cases "relpath (getcwd fs) (os_path_join root [f]) (init_path self)")
    case (Inl e)
    with relpath_no_KeyError [of "getcwd fs" "os_path_join root [f]" "init_path self" m] Cons.IH
    show ?thesis by (simp add: list_files_loop_step)
  next
    case (Inr rel)
    with v Cons.IH show ?thesis by (simp add: list_files_loop_step)
  qed
qed

lemma list_files_walk_no_KeyError:
  assumes "file_type_icons b (Some ''.*'') \<noteq> None"
  shows "list_files_walk b fs self triples acc \<noteq> Inl (KeyError m)"
proof (induction triples arbitrary: acc)
  case Nil
  show ?case by simp
next
  case (Cons triple triples)
  show ?case
    using list_files_loop_no_KeyError [OF assms, of fs self "fst triple" "snd (snd triple)" acc m]
      Cons.IH
    by (cases "list_files_loop b fs self (fst triple) (snd (snd triple)) acc") simp_all
qed

lemma list_files_no_KeyError:
  assumes "file_type_icons b (Some ''.*'') \<noteq> None"
  shows "list_files b fs self path \<noteq> Inl (KeyError m)"
  using list_files_walk_no_KeyError [OF assms, of fs self "walk (exclude_folder b) path (tree fs path)" "([], [])" m]
  by (cases "list_files_walk b fs self (walk (exclude_folder b) path (tree fs path)) ([], [])")
     (simp_all add: list_files_def split: prod.splits)

text \<open>
  C7: whatever the \<open>file_types\<close> setting, the table that \<open>initialize\<close> builds has a
  wildcard entry and a directory entry; classifying \<open>None\<close> gives the directory
  entry; classifying any extension gives an entry, and the wildcard entry when the
  extension is not a key of the configured mapping; an entry that the configuration
  omits is the injected one (\<open>file\<close> or \<open>folder\<close>, with the icon \<open>Open\<close>), so that
  with the empty configuration these two are the answers; and neither listing
  raises \<open>KeyError\<close>.
\<close>

theorem classifier_lookup_total:
  assumes "file_type_icons b = build_file_type_icons file_types"
  shows "\<exists>wildcard folder.
           file_type_icons b (Some ''.*'') = Some wildcard
           \<and> file_type_icons b None = Some folder
           \<and> classify (file_type_icons b) None = Inr folder
           \<and> (\<exists>v. classify (file_type_icons b) (Some ext) = Inr v)
           \<and> (foldl add_file_type Map.empty file_types (Some ext) = None
                \<longrightarrow> classify (file_type_icons b) (Some ext) = Inr wildcard)
           \<and> (foldl add_file_type Map.empty file_types (Some ''.*'') = None
                \<longrightarrow> wildcard = \<lparr> name = ''file'', icon = ''Open'' \<rparr>)
           \<and> (foldl add_file_type Map.empty file_types None = None
                \<longrightarrow> folder = \<lparr> name = ''folder'', icon = ''Open'' \<rparr>)
           \<and> (file_types = []
                \<longrightarrow> classify (file_type_icons b) (Some ext) = Inr \<lparr> name = ''file'', icon = ''Open'' \<rparr>
                    \<and> classify (file_type_icons b) None = Inr \<lparr> name = ''folder'', icon = ''Open'' \<rparr>)
           \<and> (\<forall>m. browse b fs self d \<noteq> Inl (KeyError m))
           \<and> (\<forall>m. list_files b fs self d \<noteq> Inl (KeyError m))"
proof -
  let ?t = "file_type_icons b"
  let ?c = "foldl add_file_type Map.empty file_types"
  from assms obtain wildcard folder where
    w: "?t (Some ''.*'') = Some wildcard" and f: "?t None = Some folder"
    using build_has_wildcard build_has_directory by metis
  have total: "\<exists>v. classify ?t (Some ext) = Inr v"
    using known_or_wildcard_present [of ?t ext] w
    by (cases "?t (Some (known_or_wildcard ?t ext))") (simp_all add: classify_def lookup_icon_def)
  have absent: "classify ?t (Some ext) = Inr wildcard" if "?c (Some ext) = None"
  proof (cases "ext = ''.*''")
    case True
    with w show ?thesis by (simp add: classify_def lookup_icon_def known_or_wildcard_def)
  next
    case False
    with that have "?t (Some ext) = None"
      by (simp add: assms build_absent)
    with w show ?thesis by (simp add: classify_def lookup_icon_def known_or_wildcard_def)
  qed
  have injected_w: "wildcard = \<lparr> name = ''file'', icon = ''Open'' \<rparr>" if "?c (Some ''.*'') = None"
    using that w by (simp add: assms build_absent)
  have injected_f: "folder = \<lparr> name = ''folder'', icon = ''Open'' \<rparr>" if "?c None = None"
    using that f by (simp add: assms build_absent)
  have empty: "classify ?t (Some ext) = Inr \<lparr> name = ''file'', icon = ''Open'' \<rparr>
       \<and> classify ?t None = Inr \<lparr> name = ''folder'', icon = ''Open'' \<rparr>" if "file_types = []"
    using that absent injected_w injected_f f by (simp add: classify_def lookup_icon_def)
  have no_key: "browse b fs self d \<noteq> Inl (KeyError m)" "list_files b fs self d \<noteq> Inl (KeyError m)" for m
    using w f by (simp_all add: browse_no_KeyError list_files_no_KeyError)
  from w f total absent injected_w injected_f empty no_key show ?thesis
    by (simp add: classify_def lookup_icon_def)
qed

theorem classifier_lookup_total_witness:
  "classify (file_type_icons example_browser) None = Inr \<lparr> name = ''folder'', icon = ''Open'' \<rparr>
   \<and> classify (file_type_icons example_browser) (Some ''.ext'') = Inr \<lparr> name = ''file'', icon = ''Open'' \<rparr>
   \<and> browse example_browser example_fs example_session ''/proj/src/lib'' \<noteq> Inl (KeyError ''None'')"
proof -
  have built: "file_type_icons example_browser = build_file_type_icons []"
    by (simp add: example_browser_def)
  from classifier_lookup_total [OF built, of "''.ext''" example_fs example_session "''/proj/src/lib''"]
  show ?thesis by auto
qed

subsection \<open>pat2regex\<close>

lemmas re_eval =
  re_compile_def step_normal_def push_item_def close_frame_def quantify_def is_alnum_def
  convert_def transtable_def

lemma fallback_compiles: "re_compile ''.*'' = Compiled (Star AnyChar)"
  by (simp add: re_eval)

lemma star_matches_everything: "re_match (Star r) s"
  by (simp add: re_match_def re_run.simps(8))

text \<open>
  C5: when \<open>re.compile\<close> raises on the translated patterns, \<open>pat2regex\<close> returns a
  regular expression whose \<open>match\<close> succeeds on every string, and one dialog, which
  names the patterns; \<open>initialize\<close> goes on with it, so that with such file
  patterns (and folder patterns that compile) the class attributes are set,
  \<open>exclude_file\<close> holds of every name, and the dialog is among those shown.
\<close>

theorem compile_failure_excludes_everything:
  assumes "re_compile (''^(?:'' @ str_join ''|'' (map convert patterns) @ '')$'') = ReError"
  shows "\<exists>regex. pat2regex patterns = Some (regex, [Invalid_patterns patterns])
           \<and> (\<forall>s. re_match regex s)
           \<and> (\<forall>settings folder_regex folder_dialogs.
                 get_default (s_file_exclude_patterns settings) [] = patterns
                 \<and> pat2regex (get_default (s_folder_exclude_patterns settings) [])
                     = Some (folder_regex, folder_dialogs)
                 \<longrightarrow> (\<exists>b dialogs. initialize settings = Some (b, dialogs)
                        \<and> (\<forall>s. exclude_file b s)
                        \<and> Invalid_patterns patterns \<in> set dialogs))"
proof -
  have p: "pat2regex patterns = Some (Star AnyChar, [Invalid_patterns patterns])"
    using assms by (simp add: pat2regex_def fallback_compiles)
  have m: "\<forall>s. re_match (Star AnyChar) s"
    by (simp add: star_matches_everything)
  have "\<exists>b dialogs. initialize settings = Some (b, dialogs)
          \<and> (\<forall>s. exclude_file b s) \<and> Invalid_patterns patterns \<in> set dialogs"
    if "get_default (s_file_exclude_patterns settings) [] = patterns"
      and "pat2regex (get_default (s_folder_exclude_patterns settings) []) = Some (folder_regex, folder_dialogs)"
    for settings folder_regex folder_dialogs
    using that p m by (simp add: initialize_def)
  with p m show ?thesis by blast
qed

theorem compile_failure_excludes_everything_witness:
  "\<exists>regex. pat2regex [''(''] = Some (regex, [Invalid_patterns [''('']])
     \<and> re_match regex ''main.ext'' \<and> re_match regex []
     \<and> (\<exists>b dialogs. initialize (example_settings\<lparr> s_file_exclude_patterns := Some [''(''] \<rparr>)
                         = Some (b, dialogs)
           \<and> exclude_file b ''main.ext'' \<and> dialogs = [Invalid_patterns [''('']])"
proof -
  have raised: "re_compile (''^(?:'' @ str_join ''|'' (map convert [''('']) @ '')$'') = ReError"
    by (simp add: re_eval)
  let ?s = "example_settings\<lparr> s_file_exclude_patterns := Some [''(''] \<rparr>"
  have files: "get_default (s_file_exclude_patterns ?s) [] = [''('']"
    by (simp add: get_default_def)
  have folders: "pat2regex (get_default (s_folder_exclude_patterns ?s) [])
                   = Some (Seq Bol (Seq Eps Eol), [])"
    by (simp add: example_settings_def get_default_def pat2regex_def re_eval)
  from compile_failure_excludes_everything [OF raised] obtain regex where
    1: "pat2regex [''(''] = Some (regex, [Invalid_patterns [''('']])"
    and 2: "\<forall>s. re_match regex s"
    and 3: "\<exists>b dialogs. initialize ?s = Some (b, dialogs)
          \<and> (\<forall>s. exclude_file b s) \<and> Invalid_patterns [''(''] \<in> set dialogs"
    using files folders by blast
  have 4: "snd (the (initialize ?s)) = [Invalid_patterns [''('']]"
    using 1 folders files by (simp add: initialize_def)
  from 1 2 3 4 show ?thesis by auto
qed

subsection \<open>The matcher of \<open>pat2regex\<close> and the glob patterns\<close>

lemma parse_transtable:
  assumes "plain_char c"
  shows "foldl parse_char (Compiled (Normal, (alts, items), below)) (transtable c)
         = Compiled (Normal, (alts, items @ [glob_item c]), below)"
  using assms
  by (simp add: transtable_def plain_char_def glob_item_def step_normal_def push_item_def
      quantify_def is_alnum_def)

lemma parse_convert:
  assumes "\<forall>c \<in> set p. plain_char c"
  shows "foldl parse_char (Compiled (Normal, (alts, items), below)) (convert p)
         = Compiled (Normal, (alts, items @ map glob_item p), below)"
  using assms
proof (induction p arbitrary: items)
  case Nil
  show ?case by (simp add: convert_def)
next
  case (Cons c p)
  have "convert (c # p) = transtable c @ convert p"
    by (simp add: convert_def)
  with Cons show ?case
    by (simp add: parse_transtable)
qed

lemma parse_joined:
  assumes "\<forall>p \<in> set ps. \<forall>c \<in> set p. plain_char c" and "ps \<noteq> []"
  shows "foldl parse_char (Compiled (Normal, (alts, []), below)) (str_join ''|'' (map convert ps))
         = Compiled (Normal, (alts @ map (\<lambda>p. build_seq (map glob_item p)) (butlast ps),
                              map glob_item (last ps)), below)"
  using assms
proof (induction ps arbitrary: alts)
  case Nil
  then show ?case by simp
next
  case (Cons p ps)
  show ?case
  proof (cases ps)
    case Nil
    with Cons.prems show ?thesis by (simp add: parse_convert)
  next
    case (Cons q qs)
    have "str_join ''|'' (map convert (p # ps)) = convert p @ ''|'' @ str_join ''|'' (map convert ps)"
      by (simp add: Cons)
    moreover have "foldl parse_char (Compiled (Normal, (alts, []), below)) (convert p @ ''|'')
        = Compiled (Normal, (alts @ [build_seq (map glob_item p)], []), below)"
      using Cons.prems by (simp add: parse_convert step_normal_def)
    ultimately show ?thesis
      using Cons.IH [of "alts @ [build_seq (map glob_item p)]"] Cons.prems Cons
      by (simp del: str_join.simps)
  qed
qed

lemma compile_globs:
  assumes "\<forall>p \<in> set ps. \<forall>c \<in> set p. plain_char c" and "ps \<noteq> []"
  shows "re_compile (''^(?:'' @ str_join ''|'' (map convert ps) @ '')$'')
         = Compiled (Seq Bol (Seq (build_alt (map (\<lambda>p. build_seq (map glob_item p)) ps)) Eol))"
proof -
  let ?init = "Compiled (Normal, ([], []), [])"
  let ?body = "str_join ''|'' (map convert ps)"
  let ?branches = "map (\<lambda>p. build_seq (map glob_item p)) ps"
  have start: "foldl parse_char ?init ''^(?:'' = Compiled (Normal, ([], []), [([], [At Bol])])"
    by (simp add: step_normal_def push_item_def)
  have body: "foldl parse_char (Compiled (Normal, ([], []), [([], [At Bol])])) ?body
        = Compiled (Normal, (map (\<lambda>p. build_seq (map glob_item p)) (butlast ps),
                              map glob_item (last ps)), [([], [At Bol])])"
    using parse_joined [OF assms, of "[]"] by simp
  have "ps = butlast ps @ [last ps]"
    using assms(2) by simp
  then have "?branches = map (\<lambda>p. build_seq (map glob_item p)) (butlast ps)
                 @ [build_seq (map glob_item (last ps))]"
    by (metis list.simps(8,9) map_append)
  then have closed: "close_frame (map (\<lambda>p. build_seq (map glob_item p)) (butlast ps), map glob_item (last ps))
      = build_alt ?branches"
    by (simp add: close_frame_def)
  have finish: "foldl parse_char (Compiled (Normal, cur, [([], [At Bol])])) '')$''
      = Compiled (Normal, ([], [At Bol, Grp (close_frame cur), At Eol]), [])" for cur
    by (simp add: step_normal_def push_item_def)
  have "foldl parse_char ?init (''^(?:'' @ ?body @ '')$'')
      = foldl parse_char (foldl parse_char (foldl parse_char ?init ''^(?:'') ?body) '')$''"
    by (simp only: foldl_append)
  also have "\<dots> = Compiled (Normal, ([], [At Bol, Grp (build_alt ?branches), At Eol]), [])"
    by (simp only: start body finish closed)
  finally show ?thesis
    by (simp add: re_compile_def close_frame_def)
qed


lemma re_run_rest_subset:
  "y \<in> set (re_run r x) \<Longrightarrow> set (snd y) \<subseteq> set (snd x)"
proof (induction r x arbitrary: y rule: re_run.induct)
  case (1 x)
  then show ?case by simp
next
  case (2 c x)
  then show ?case by (cases "snd x") (auto split: if_splits)
next
  case (3 x)
  then show ?case by (cases "snd x") (auto split: if_splits)
next
  case (4 x)
  then show ?case by (simp split: if_splits)
next
  case (5 x)
  then show ?case by (simp split: if_splits)
next
  case (6 r1 r2 x)
  from "6.prems" obtain z where z: "z \<in> set (re_run r1 x)" and y: "y \<in> set (re_run r2 z)"
    by auto
  from "6.IH"(1) [OF z] "6.IH"(2) [OF z y] show ?case by blast
next
  case (7 r1 r2 x)
  from "7.prems" have "y \<in> set (re_run r1 x) \<or> y \<in> set (re_run r2 x)" by simp
  with "7.IH" show ?case by blast
next
  case (8 r x)
  from "8.prems" have "y \<in> set (x # concat (map (re_run (Star r))
      (filter (\<lambda>y. length (snd y) < length (snd x)) (re_run r x))))"
    by (simp only: re_run.simps(8))
  then consider "y = x"
    | z where "z \<in> set (re_run r x)" "length (snd z) < length (snd x)" "y \<in> set (re_run (Star r) z)"
    by auto
  then show ?case
  proof cases
    case 1
    then show ?thesis by simp
  next
    case 2
    have "z \<in> set (filter (\<lambda>y. length (snd y) < length (snd x)) (re_run r x))"
      using 2 by simp
    from "8.IH"(1) [OF 2(1)] "8.IH"(2) [OF this 2(3)] show ?thesis by blast
  qed
qed

lemma accepts_build_seq:
  "accepts (build_seq (i # is)) x = (\<exists>y \<in> set (re_run (regex_of i) x). accepts (build_seq is) y)"
  by (cases "is") (auto simp: accepts_def)

lemma accepts_build_alt:
  "rs \<noteq> [] \<Longrightarrow> accepts (build_alt rs) x = (\<exists>r \<in> set rs. accepts r x)"
proof (induction rs rule: build_alt.induct)
  case 1
  then show ?case by simp
next
  case (2 r)
  show ?case by simp
next
  case (3 r q qs)
  then show ?case by (auto simp: accepts_def)
qed

lemma star_any_step:
  "re_run (Star AnyChar) (b, s) =
     (b, s) # (case s of [] \<Rightarrow> [] | c # t \<Rightarrow> if c \<noteq> newline then re_run (Star AnyChar) (False, t) else [])"
  by (cases s) (simp_all add: re_run.simps(8))

lemma glob_item_regex:
  "regex_of (glob_item c) =
     (if c = CHR ''*'' then Star AnyChar else if c = CHR ''?'' then AnyChar else Lit c)"
  by (simp add: glob_item_def)

lemma accepts_glob:
  "newline \<notin> set s \<Longrightarrow> accepts (build_seq (map glob_item p)) (b, s) = glob_matches p s"
proof (induction p s arbitrary: b rule: glob_matches.induct)
  case (1 s)
  show ?case by (simp add: accepts_def)
next
  case (2 p ps)
  have "accepts (build_seq (map glob_item (p # ps))) (b, [])
      = (p = CHR ''*'' \<and> accepts (build_seq (map glob_item ps)) (b, []))"
    unfolding list.map accepts_build_seq glob_item_regex
    by (simp add: star_any_step)
  with 2 show ?case by auto
next
  case (3 p ps c cs)
  from "3.prems" have c: "c \<noteq> newline" and cs: "newline \<notin> set cs" by auto
  show ?case
  proof (cases "p = CHR ''*''")
    case True
    have unrolled: "re_run (Star AnyChar) (b, c # cs) = (b, c # cs) # re_run (Star AnyChar) (False, cs)"
      using c by (simp add: star_any_step [of b "c # cs"])
    have "accepts (build_seq (map glob_item (p # ps))) (b, c # cs)
      = (accepts (build_seq (map glob_item ps)) (b, c # cs)
         \<or> (\<exists>y \<in> set (re_run (Star AnyChar) (False, cs)). accepts (build_seq (map glob_item ps)) y))"
      unfolding list.map accepts_build_seq glob_item_regex
      by (simp add: True unrolled)
    also have "(\<exists>y \<in> set (re_run (Star AnyChar) (False, cs)). accepts (build_seq (map glob_item ps)) y)
      = accepts (build_seq (map glob_item (p # ps))) (False, cs)"
      unfolding list.map accepts_build_seq glob_item_regex by (simp add: True)
    finally show ?thesis
      using "3.IH"(1) [OF True "3.prems"] "3.IH"(2) [OF True cs] True by simp
  next
    case False
    have "accepts (build_seq (map glob_item (p # ps))) (b, c # cs)
      = ((p = CHR ''?'' \<or> p = c) \<and> accepts (build_seq (map glob_item ps)) (False, cs))"
      unfolding list.map accepts_build_seq glob_item_regex
      using False c by auto
    with "3.IH"(3) [OF False cs] False show ?thesis by simp
  qed
qed

lemma match_anchored:
  assumes "newline \<notin> set s"
  shows "re_match (Seq Bol (Seq r Eol)) s = accepts r (True, s)"
proof -
  have "snd y \<noteq> [newline]" if "y \<in> set (re_run r (True, s))" for y
    using re_run_rest_subset [OF that] assms by auto
  then show ?thesis
    by (auto simp: re_match_def accepts_def)
qed

lemma pat2regex_globs:
  assumes "\<forall>p \<in> set ps. \<forall>c \<in> set p. plain_char c" and "ps \<noteq> []" and "newline \<notin> set s"
  shows "\<exists>r. pat2regex ps = Some (r, []) \<and> re_match r s = (\<exists>p \<in> set ps. glob_matches p s)"
proof -
  let ?branches = "map (\<lambda>p. build_seq (map glob_item p)) ps"
  have "pat2regex ps = Some (Seq Bol (Seq (build_alt ?branches) Eol), [])"
    unfolding pat2regex_def compile_globs [OF assms(1,2)] by simp
  moreover have "re_match (Seq Bol (Seq (build_alt ?branches) Eol)) s = (\<exists>p \<in> set ps. glob_matches p s)"
    using assms(2,3) by (simp add: match_anchored accepts_build_alt accepts_glob)
  ultimately show ?thesis by blast
qed


text \<open>
  C6, as stated: the matcher matches the entire name against the glob set, whatever
  the patterns and the name. Only three characters are translated, so the others
  that \<open>re\<close> interprets keep their meaning there: the patterns \<open>lost+found\<close>,
  \<open>a(1).txt\<close> and \<open>$RECYCLE.BIN\<close> do not match the names they spell. A newline
  is outside \<open>.\<close> and a final one is outside \<open>$\<close>: \<open>*\<close> does not match a name
  with a newline inside, and \<open>a\<close> matches the name \<open>a\<close> followed by a newline. And
  the empty pattern list, which holds no glob, matches the empty name.
\<close>

theorem pattern_matcher_differs_from_globs:
  "matches [''lost+found''] ''lost+found'' = Some False
   \<and> glob_matches ''lost+found'' ''lost+found''
   \<and> matches [''a(1).txt''] ''a(1).txt'' = Some False
   \<and> glob_matches ''a(1).txt'' ''a(1).txt''
   \<and> matches [''$RECYCLE.BIN''] ''$RECYCLE.BIN'' = Some False
   \<and> glob_matches ''$RECYCLE.BIN'' ''$RECYCLE.BIN''
   \<and> matches [''*''] (''a'' @ [newline] @ ''b'') = Some False
   \<and> glob_matches ''*'' (''a'' @ [newline] @ ''b'')
   \<and> matches [''a''] (''a'' @ [newline]) = Some True
   \<and> \<not> glob_matches ''a'' (''a'' @ [newline])
   \<and> matches [] [] = Some True"
  by (simp add: matches_def pat2regex_def re_eval re_match_def newline_def re_run.simps(8))

text \<open>
  C6, amended: the matcher compiled from \<open>*.txt\<close> matches \<open>foo.txt\<close>, the one
  compiled from \<open>*.md\<close> does not, and the one compiled from \<open>a.?\<close> matches
  \<open>a.b\<close>. In general, for a list of patterns that is not empty and whose
  characters are \<open>*\<close>, \<open>?\<close> and plain characters (the dot among them, and none of
  the characters that \<open>re\<close> interprets), \<open>pat2regex\<close> compiles without a dialog,
  and its matcher accepts a name without newline exactly when one of the patterns,
  read as a glob (\<open>*\<close> any run of characters, \<open>?\<close> one character, every other
  character itself), accounts for the whole name.
\<close>

theorem pattern_matcher_matches_globs:
  "(\<exists>r. pat2regex [''*.txt''] = Some (r, []) \<and> re_match r ''foo.txt'')
   \<and> (\<exists>r. pat2regex [''*.md''] = Some (r, []) \<and> \<not> re_match r ''foo.txt'')
   \<and> (\<exists>r. pat2regex [''a.?''] = Some (r, []) \<and> re_match r ''a.b'')
   \<and> ((\<forall>p \<in> set ps. \<forall>c \<in> set p. plain_char c) \<and> ps \<noteq> [] \<and> newline \<notin> set s
        \<longrightarrow> (\<exists>r. pat2regex ps = Some (r, [])
               \<and> re_match r s = (\<exists>p \<in> set ps. glob_matches p s)))"
proof -
  have examples:
    "\<exists>r. pat2regex [''*.txt''] = Some (r, []) \<and> re_match r ''foo.txt''"
    "\<exists>r. pat2regex [''*.md''] = Some (r, []) \<and> \<not> re_match r ''foo.txt''"
    "\<exists>r. pat2regex [''a.?''] = Some (r, []) \<and> re_match r ''a.b''"
    by (simp_all add: pat2regex_def re_eval re_match_def newline_def re_run.simps(8))
  with pat2regex_globs [of ps s] show ?thesis by blast
qed

theorem pattern_matcher_matches_globs_witness:
  "(\<exists>r. pat2regex [''*.md'', ''a.?''] = Some (r, []) \<and> re_match r ''a.b'' \<and> \<not> re_match r ''a.bc'')
   \<and> (\<exists>r. pat2regex [''*''] = Some (r, []) \<and> re_match r ''any run'')
   \<and> (\<exists>r. pat2regex [''.''] = Some (r, []) \<and> re_match r ''.'' \<and> \<not> re_match r ''x'')"
proof -
  have plain: "\<forall>p \<in> set [''*.md'', ''a.?'']. \<forall>c \<in> set p. plain_char c"
    "\<forall>p \<in> set [''*'']. \<forall>c \<in> set p. plain_char c"
    "\<forall>p \<in> set [''.'']. \<forall>c \<in> set p. plain_char c"
    by (simp_all add: plain_char_def)
  have names: "newline \<notin> set ''a.b''" "newline \<notin> set ''a.bc''" "newline \<notin> set ''any run''"
    "newline \<notin> set ''.''" "newline \<notin> set ''x''"
    by (simp_all add: newline_def)
  from pattern_matcher_matches_globs [of "[''*.md'', ''a.?'']" "''a.b''"]
       pattern_matcher_matches_globs [of "[''*.md'', ''a.?'']" "''a.bc''"]
       pattern_matcher_matches_globs [of "[''*'']" "''any run''"]
       pattern_matcher_matches_globs [of "[''.'']" "''.''"]
       pattern_matcher_matches_globs [of "[''.'']" "''x''"]
       plain names
  show ?thesis by auto
qed

subsection \<open>Paths as lists of components\<close>

lemma str_join_slash: "str_join ''/'' (c # cs) = c @ concat (map (\<lambda>x. CHR ''/'' # x) cs)"
  by (induction cs arbitrary: c) auto

lemma split_free: "CHR ''/'' \<notin> set c \<Longrightarrow> str_split CHR ''/'' c = [c]"
  by (induction c) auto

lemma split_free_append:
  "CHR ''/'' \<notin> set c \<Longrightarrow> str_split CHR ''/'' (c @ CHR ''/'' # rest) = c # str_split CHR ''/'' rest"
  by (induction c) auto

lemma split_components:
  "\<forall>x \<in> set (c # cs). CHR ''/'' \<notin> set x
   \<Longrightarrow> str_split CHR ''/'' (c @ concat (map (\<lambda>x. CHR ''/'' # x) cs)) = c # cs"
proof (induction cs arbitrary: c)
  case Nil
  then show ?case by (simp add: split_free)
next
  case (Cons d ds)
  then show ?case by (simp add: split_free_append)
qed

lemma split_join:
  "cs \<noteq> [] \<Longrightarrow> \<forall>x \<in> set cs. CHR ''/'' \<notin> set x \<Longrightarrow> str_split CHR ''/'' (str_join ''/'' cs) = cs"
  by (cases cs) (simp_all only: str_join_slash split_components, simp)

lemma endswith_slash: "endswith p ''/'' = (p \<noteq> [] \<and> last p = CHR ''/'')"
proof (cases p rule: rev_cases)
  case Nil
  then show ?thesis by (simp add: endswith_def)
next
  case (snoc ys y)
  then show ?thesis by (simp add: endswith_def)
qed

lemma startswith_slash: "startswith p ''/'' = (p \<noteq> [] \<and> hd p = CHR ''/'')"
  by (cases p) (simp_all add: startswith_def)

lemma valid_name_last: "valid_name c \<Longrightarrow> last c \<noteq> CHR ''/''"
  by (metis last_in_set valid_name_def)

lemma join_step_name:
  "valid_name c \<Longrightarrow> join_step path c = with_sep path @ c"
  by (cases c) (auto simp: join_step_def with_sep_def startswith_slash valid_name_def)

lemma join_names_open:
  assumes "p \<noteq> []" and "last p \<noteq> CHR ''/''" and "\<forall>x \<in> set cs. valid_name x"
  shows "foldl join_step p cs = p @ concat (map (\<lambda>x. CHR ''/'' # x) cs)"
  using assms
proof (induction cs arbitrary: p)
  case Nil
  show ?case by simp
next
  case (Cons c cs)
  then have c: "valid_name c" by simp
  have step: "join_step p c = p @ CHR ''/'' # c"
    using Cons.prems(1,2) c by (simp add: join_step_name with_sep_def endswith_slash)
  have "last (p @ CHR ''/'' # c) \<noteq> CHR ''/''"
    using c valid_name_last [of c] by (simp add: valid_name_def)
  with Cons.IH [of "p @ CHR ''/'' # c"] Cons.prems(3) step show ?case by simp
qed

lemma join_names:
  assumes "\<forall>x \<in> set (c # cs). valid_name x"
  shows "os_path_join root (c # cs) = with_sep root @ str_join ''/'' (c # cs)"
proof -
  from assms have c: "valid_name c" and cs: "\<forall>x \<in> set cs. valid_name x" by simp_all
  have "with_sep root @ c \<noteq> []" "last (with_sep root @ c) \<noteq> CHR ''/''"
    using c valid_name_last [of c] by (simp_all add: valid_name_def)
  from join_names_open [OF this cs] c show ?thesis
    by (simp add: os_path_join_def join_step_name str_join_slash)
qed

lemma join_names_inject:
  assumes "\<forall>x \<in> set cs. valid_name x" and "\<forall>x \<in> set cs'. valid_name x"
    and "cs \<noteq> []" and "cs' \<noteq> []"
    and "os_path_join root cs = os_path_join root cs'"
  shows "cs = cs'"
proof -
  from assms(3,4) obtain c ds c' ds' where cs: "cs = c # ds" "cs' = c' # ds'"
    by (cases cs; cases cs') auto
  with assms(1,2,5) have "str_join ''/'' cs = str_join ''/'' cs'"
    by (simp only: join_names same_append_eq)
  moreover have "\<forall>x \<in> set cs. CHR ''/'' \<notin> set x" "\<forall>x \<in> set cs'. CHR ''/'' \<notin> set x"
    using assms(1,2) by (auto simp: valid_name_def)
  ultimately show ?thesis
    using split_join [OF assms(3)] split_join [OF assms(4)] by metis
qed

subsection \<open>The recursive listing\<close>

lemma file_names_mem: "f \<in> set (file_names ns) \<longleftrightarrow> File f \<in> set ns"
  by (induction ns rule: file_names.induct) auto

lemma files_in_mem:
  "(ds, f) \<in> set (files_in ns) \<longleftrightarrow>
     (ds = [] \<and> File f \<in> set ns)
     \<or> (\<exists>d sub ds'. ds = d # ds' \<and> Dir d sub \<in> set ns \<and> (ds', f) \<in> set (files_in sub))"
proof (induction ns rule: files_in.induct)
  case 1
  show ?case by simp
next
  case (2 f' ns)
  then show ?case by auto
next
  case (3 d sub ns)
  have "(ds, f) \<in> set (map (\<lambda>x. (d # fst x, snd x)) (files_in sub))
      \<longleftrightarrow> (\<exists>ds'. ds = d # ds' \<and> (ds', f) \<in> set (files_in sub))"
    by force
  with 3(2) show ?case by auto
qed

lemma wf_nodes_mem:
  "wf_nodes ns \<longleftrightarrow>
     (\<forall>f. File f \<in> set ns \<longrightarrow> valid_name f)
     \<and> (\<forall>d sub. Dir d sub \<in> set ns \<longrightarrow> valid_name d \<and> wf_nodes sub)"
  by (induction ns rule: wf_nodes.induct) auto

lemma join_more: "os_path_join (os_path_join root [d]) cs = os_path_join root (d # cs)"
  by (simp add: os_path_join_def)

lemma kept_paths_unfold:
  "p \<in> set (kept_paths ex keep root contents) \<longleftrightarrow>
      (\<exists>f. File f \<in> set contents \<and> keep f \<and> p = os_path_join root [f])
      \<or> (\<exists>d sub. Dir d sub \<in> set contents \<and> \<not> ex d
             \<and> p \<in> set (kept_paths ex keep (os_path_join root [d]) sub))"
proof -
  let ?g = "\<lambda>n. case n of Dir d sub \<Rightarrow> if ex d then []
                        else kept_paths ex keep (os_path_join root [d]) sub
                    | File f \<Rightarrow> []"
  have "(\<exists>n \<in> set contents. p \<in> set (?g n))
      \<longleftrightarrow> (\<exists>d sub. Dir d sub \<in> set contents \<and> \<not> ex d
             \<and> p \<in> set (kept_paths ex keep (os_path_join root [d]) sub))"
  proof
    assume "\<exists>n \<in> set contents. p \<in> set (?g n)"
    then obtain n where n: "n \<in> set contents" "p \<in> set (?g n)" by blast
    then show "\<exists>d sub. Dir d sub \<in> set contents \<and> \<not> ex d
             \<and> p \<in> set (kept_paths ex keep (os_path_join root [d]) sub)"
      by (cases n) (auto split: if_splits)
  next
    assume "\<exists>d sub. Dir d sub \<in> set contents \<and> \<not> ex d
             \<and> p \<in> set (kept_paths ex keep (os_path_join root [d]) sub)"
    then obtain d sub where "Dir d sub \<in> set contents" "\<not> ex d"
      "p \<in> set (kept_paths ex keep (os_path_join root [d]) sub)" by blast
    then have "p \<in> set (?g (Dir d sub))" by simp
    with \<open>Dir d sub \<in> set contents\<close> show "\<exists>n \<in> set contents. p \<in> set (?g n)" by blast
  qed
  moreover have "p \<in> set (map (\<lambda>f. os_path_join root [f]) (filter keep (file_names contents)))
      \<longleftrightarrow> (\<exists>f. File f \<in> set contents \<and> keep f \<and> p = os_path_join root [f])"
    by (auto simp: file_names_mem)
  moreover have "p \<in> set (kept_paths ex keep root contents) \<longleftrightarrow>
      p \<in> set (map (\<lambda>f. os_path_join root [f]) (filter keep (file_names contents)))
      \<or> (\<exists>n \<in> set contents. p \<in> set (?g n))"
    by (subst kept_paths.simps) simp
  ultimately show ?thesis by (simp only:)
qed

lemma kept_paths_mem:
  "p \<in> set (kept_paths ex keep root contents) \<longleftrightarrow>
     (\<exists>ds f. (ds, f) \<in> set (files_in contents) \<and> (\<forall>d \<in> set ds. \<not> ex d) \<and> keep f
              \<and> p = os_path_join root (ds @ [f]))"
  (is "?L \<longleftrightarrow> ?R")
proof (induction ex keep root contents arbitrary: p rule: kept_paths.induct)
  case (1 ex keep root contents)
  let ?R = "\<exists>ds f. (ds, f) \<in> set (files_in contents) \<and> (\<forall>d \<in> set ds. \<not> ex d) \<and> keep f
              \<and> p = os_path_join root (ds @ [f])"
  show ?case
  proof
    assume "p \<in> set (kept_paths ex keep root contents)"
    then consider f where "File f \<in> set contents" "keep f" "p = os_path_join root [f]"
      | d sub where "Dir d sub \<in> set contents" "\<not> ex d"
          "p \<in> set (kept_paths ex keep (os_path_join root [d]) sub)"
      unfolding kept_paths_unfold [of p ex keep root contents] by blast
    then show ?R
    proof cases
      case 1
      then have "([], f) \<in> set (files_in contents)"
        by (simp add: files_in_mem [of "[]" f contents])
      with 1 show ?thesis by force
    next
      case 2
      with "1.IH" [OF 2(1) refl 2(2)] obtain ds f where
        sub: "(ds, f) \<in> set (files_in sub)" "\<forall>d \<in> set ds. \<not> ex d" "keep f"
          "p = os_path_join (os_path_join root [d]) (ds @ [f])"
        by blast
      from sub(1) 2(1) have "(d # ds, f) \<in> set (files_in contents)"
        by (auto simp: files_in_mem [of "d # ds" f contents])
      moreover have "p = os_path_join root ((d # ds) @ [f])"
        using sub(4) by (simp add: join_more)
      ultimately show ?thesis
        using sub(2,3) 2(2) by (intro exI [of _ "d # ds"] exI [of _ f]) simp
    qed
  next
    assume ?R
    then obtain ds f where
      r: "(ds, f) \<in> set (files_in contents)" "\<forall>d \<in> set ds. \<not> ex d" "keep f"
        "p = os_path_join root (ds @ [f])"
      by blast
    from r(1) consider "ds = []" "File f \<in> set contents"
      | d sub ds' where "ds = d # ds'" "Dir d sub \<in> set contents" "(ds', f) \<in> set (files_in sub)"
      unfolding files_in_mem [of ds f contents] by blast
    then show "p \<in> set (kept_paths ex keep root contents)"
    proof cases
      case 1
      with r show ?thesis
        unfolding kept_paths_unfold [of p ex keep root contents] by auto
    next
      case 2
      from r(2) 2(1) have d: "\<not> ex d" and ds': "\<forall>d \<in> set ds'. \<not> ex d" by simp_all
      have "p = os_path_join (os_path_join root [d]) (ds' @ [f])"
        using r(4) 2(1) by (simp add: join_more)
      with "1.IH" [OF 2(2) refl d, of p] 2(3) ds' r(3)
      have "p \<in> set (kept_paths ex keep (os_path_join root [d]) sub)" by blast
      with 2(2) d show ?thesis
        unfolding kept_paths_unfold [of p ex keep root contents] by blast
    qed
  qed
qed

lemma join_one_nonempty: "f \<noteq> [] \<Longrightarrow> os_path_join root [f] \<noteq> []"
  by (auto simp: os_path_join_def join_step_def)

lemma list_files_loop_paths:
  assumes "file_type_icons b (Some ''.*'') \<noteq> None" and "\<forall>f \<in> set files. f \<noteq> []"
  shows "\<exists>is. list_files_loop b fs self root files acc
           = Inr (fst acc @ map (\<lambda>f. os_path_join root [f]) (filter (kept_file b) files),
                  snd acc @ is)"
  using assms(2)
proof (induction files arbitrary: acc)
  case Nil
  show ?case by (intro exI [of _ "[]"]) (simp add: list_files_loop.simps)
next
  case (Cons f files)
  then have f: "f \<noteq> []" and rest: "\<forall>f \<in> set files. f \<noteq> []" by simp_all
  show ?case
  proof (cases "kept_file b f")
    case False
    then have "exclude_file b f \<or> snd (splitext f) \<in> set (ignored_file_types b)"
      by (simp add: kept_file_def)
    with Cons.IH [OF rest, of acc] False show ?thesis
      by (simp add: list_files_loop_step)
  next
    case True
    let ?abs = "os_path_join root [f]"
    let ?ext = "known_or_wildcard (file_type_icons b) (snd (splitext f))"
    obtain rel where rel: "relpath (getcwd fs) ?abs (init_path self) = Inr rel"
      using relpath_total [OF join_one_nonempty [OF f]] by blast
    have "file_type_icons b (Some ?ext) \<noteq> None"
      using known_or_wildcard_present [of "file_type_icons b", OF assms(1)] .
    then obtain v where v: "lookup_icon (file_type_icons b) (Some ?ext) = Inr v"
      by (auto simp: lookup_icon_def)
    from True have "\<not> (exclude_file b f \<or> snd (splitext f) \<in> set (ignored_file_types b))"
      by (simp add: kept_file_def)
    then obtain item where step: "list_files_loop b fs self root (f # files) acc
        = list_files_loop b fs self root files (fst acc @ [?abs], snd acc @ [item])"
      using rel v by (simp add: list_files_loop_step)
    from Cons.IH [OF rest, of "(fst acc @ [?abs], snd acc @ [item])"] obtain "is" where
      "list_files_loop b fs self root files (fst acc @ [?abs], snd acc @ [item])
        = Inr (fst acc @ ?abs # map (\<lambda>f. os_path_join root [f]) (filter (kept_file b) files),
               snd acc @ item # is)"
      by auto
    with step True show ?thesis by auto
  qed
qed

lemma list_files_walk_append:
  "list_files_walk b fs self (xs @ ys) acc =
     (case list_files_walk b fs self xs acc of
        Inl e \<Rightarrow> Inl e
      | Inr acc' \<Rightarrow> list_files_walk b fs self ys acc')"
  by (induction xs arbitrary: acc) (simp_all split: sum.splits)

lemma list_files_walk_children:
  assumes "\<And>d sub acc. Dir d sub \<in> set ns \<Longrightarrow> \<not> ex d \<Longrightarrow>
      \<exists>is. list_files_walk b fs self (walk ex (os_path_join root [d]) sub) acc
            = Inr (fst acc @ kept_paths ex keep (os_path_join root [d]) sub, snd acc @ is)"
  shows "\<exists>is. list_files_walk b fs self
            (concat (map (\<lambda>n. case n of
                                 Dir d sub \<Rightarrow> if ex d then [] else walk ex (os_path_join root [d]) sub
                               | File f \<Rightarrow> []) ns)) acc
          = Inr (fst acc @ concat (map (\<lambda>n. case n of
                                 Dir d sub \<Rightarrow> if ex d then []
                                              else kept_paths ex keep (os_path_join root [d]) sub
                               | File f \<Rightarrow> []) ns),
                 snd acc @ is)"
  using assms
proof (induction ns arbitrary: acc)
  case Nil
  show ?case by (intro exI [of _ "[]"]) simp
next
  case (Cons n ns)
  have rest: "\<exists>is. list_files_walk b fs self
            (concat (map (\<lambda>n. case n of
                                 Dir d sub \<Rightarrow> if ex d then [] else walk ex (os_path_join root [d]) sub
                               | File f \<Rightarrow> []) ns)) acc'
          = Inr (fst acc' @ concat (map (\<lambda>n. case n of
                                 Dir d sub \<Rightarrow> if ex d then []
                                              else kept_paths ex keep (os_path_join root [d]) sub
                               | File f \<Rightarrow> []) ns),
                 snd acc' @ is)" for acc'
    using Cons.IH [of acc'] Cons.prems by simp
  show ?case
  proof (cases n)
    case (File f)
    with rest [of acc] show ?thesis by simp
  next
    case (Dir d sub)
    show ?thesis
    proof (cases "ex d")
      case True
      with Dir rest [of acc] show ?thesis by simp
    next
      case False
      from Cons.prems [of d sub acc] Dir False obtain is1 where
        1: "list_files_walk b fs self (walk ex (os_path_join root [d]) sub) acc
            = Inr (fst acc @ kept_paths ex keep (os_path_join root [d]) sub, snd acc @ is1)"
        by auto
      from rest [of "(fst acc @ kept_paths ex keep (os_path_join root [d]) sub, snd acc @ is1)"]
      obtain is2 where
        2: "list_files_walk b fs self
            (concat (map (\<lambda>n. case n of
                                 Dir d sub \<Rightarrow> if ex d then [] else walk ex (os_path_join root [d]) sub
                               | File f \<Rightarrow> []) ns))
            (fst acc @ kept_paths ex keep (os_path_join root [d]) sub, snd acc @ is1)
          = Inr (fst acc @ kept_paths ex keep (os_path_join root [d]) sub
                   @ concat (map (\<lambda>n. case n of
                                 Dir d sub \<Rightarrow> if ex d then []
                                              else kept_paths ex keep (os_path_join root [d]) sub
                               | File f \<Rightarrow> []) ns),
                 snd acc @ is1 @ is2)"
        by auto
      show ?thesis
        using Dir False 1 2 by (simp add: list_files_walk_append)
    qed
  qed
qed

lemma list_files_walk_paths:
  assumes "file_type_icons b (Some ''.*'') \<noteq> None" and "wf_nodes contents"
  shows "\<exists>is. list_files_walk b fs self (walk ex root contents) acc
           = Inr (fst acc @ kept_paths ex (kept_file b) root contents, snd acc @ is)"
  using assms(2)
proof (induction ex root contents arbitrary: acc rule: walk.induct)
  case (1 ex root contents)
  have names: "\<forall>f \<in> set (file_names contents). f \<noteq> []"
    using "1.prems" by (auto simp: wf_nodes_mem [of contents] file_names_mem valid_name_def)
  from list_files_loop_paths [OF assms(1) names, of fs self root acc] obtain is0 where
    top: "list_files_loop b fs self root (file_names contents) acc
          = Inr (fst acc @ map (\<lambda>f. os_path_join root [f]) (filter (kept_file b) (file_names contents)),
                 snd acc @ is0)"
    by blast
  let ?acc = "(fst acc @ map (\<lambda>f. os_path_join root [f]) (filter (kept_file b) (file_names contents)),
               snd acc @ is0)"
  have sub: "\<exists>is. list_files_walk b fs self (walk ex (os_path_join root [d]) sub) acc'
            = Inr (fst acc' @ kept_paths ex (kept_file b) (os_path_join root [d]) sub, snd acc' @ is)"
    if "Dir d sub \<in> set contents" "\<not> ex d" for d sub acc'
  proof -
    from that(1) "1.prems" have "wf_nodes sub"
      by (auto simp: wf_nodes_mem [of contents])
    from "1.IH" [OF that(1) refl that(2) this] show ?thesis .
  qed
  from list_files_walk_children [of contents ex b fs self root "kept_file b" ?acc, OF sub]
  obtain is1 where
    children: "list_files_walk b fs self
            (concat (map (\<lambda>n. case n of
                                 Dir d sub \<Rightarrow> if ex d then [] else walk ex (os_path_join root [d]) sub
                               | File f \<Rightarrow> []) contents)) ?acc
          = Inr (fst ?acc @ concat (map (\<lambda>n. case n of
                                 Dir d sub \<Rightarrow> if ex d then []
                                              else kept_paths ex (kept_file b) (os_path_join root [d]) sub
                               | File f \<Rightarrow> []) contents),
                 snd ?acc @ is1)"
    by blast
  have "list_files_walk b fs self (walk ex root contents) acc
      = Inr (fst acc @ kept_paths ex (kept_file b) root contents, snd acc @ is0 @ is1)"
    by (subst walk.simps, subst kept_paths.simps) (simp add: top children)
  then show ?case by blast
qed

lemma pruning_initialize: "initialize pruning_settings = Some (pruning_browser, [])"
  by (simp add: initialize_def pruning_settings_def pruning_browser_def example_settings_def
      example_browser_def get_default_def pat2regex_def re_eval glob_item_def)

lemma pruning_excludes: "exclude_folder pruning_browser ''node_modules''"
  by (simp add: pruning_browser_def re_match_def glob_item_def newline_def)

lemmas list_files_eval =
  list_files_def list_files_loop.simps walk.simps action_tags_def lookup_icon_def
  known_or_wildcard_def build_file_type_icons_def

lemma files_in_valid:
  "wf_nodes ns \<Longrightarrow> (ds, f) \<in> set (files_in ns) \<Longrightarrow> (\<forall>x \<in> set (ds @ [f]). valid_name x)"
proof (induction ds arbitrary: ns)
  case Nil
  then have "File f \<in> set ns" by (simp add: files_in_mem [of "[]" f ns])
  with Nil(1) show ?case by (simp add: wf_nodes_mem [of ns])
next
  case (Cons d ds)
  from Cons.prems(2) obtain sub where sub: "Dir d sub \<in> set ns" "(ds, f) \<in> set (files_in sub)"
    by (auto simp: files_in_mem [of "d # ds" f ns])
  with Cons.prems(1) have "valid_name d" "wf_nodes sub"
    by (auto simp: wf_nodes_mem [of ns])
  with Cons.IH [OF this(2) sub(2)] show ?case by simp
qed

lemma list_files_paths:
  assumes "file_type_icons b (Some ''.*'') \<noteq> None" and "wf_nodes (tree fs root)"
  shows "\<exists>items. list_files b fs self root
           = Inr (kept_paths (exclude_folder b) (kept_file b) root (tree fs root), items, [])"
  using list_files_walk_paths [OF assms, of fs self "exclude_folder b" root "([], [])"]
  by (auto simp: list_files_def)

text \<open>
  C2: for every root, every tree under it whose names are file names (not empty,
  without a slash) and every folder-exclusion matcher, the recursive listing
  returns, and every file it lists lies below the root in directories none of
  which the matcher accepts; so a file that lies beneath a directory of the walk
  whose name the matcher accepts, at whatever depth below the root, is not listed:
  a pruned subtree is never descended into.
\<close>

theorem pruned_subtrees_never_listed:
  assumes "file_type_icons b = build_file_type_icons file_types"
    and "wf_nodes (tree fs root)"
  shows "\<exists>paths items.
           list_files b fs self root = Inr (paths, items, [])
           \<and> (\<forall>p \<in> set paths. \<exists>ds f.
                 (ds, f) \<in> set (files_in (tree fs root)) \<and> p = os_path_join root (ds @ [f])
                 \<and> (\<forall>d \<in> set ds. \<not> exclude_folder b d))
           \<and> (\<forall>ds f. (ds, f) \<in> set (files_in (tree fs root)) \<and> (\<exists>d \<in> set ds. exclude_folder b d)
                 \<longrightarrow> os_path_join root (ds @ [f]) \<notin> set paths)"
proof -
  let ?paths = "kept_paths (exclude_folder b) (kept_file b) root (tree fs root)"
  have "file_type_icons b (Some ''.*'') \<noteq> None"
    using build_has_wildcard [of file_types] assms(1) by auto
  from list_files_paths [OF this assms(2)] obtain items where
    listing: "list_files b fs self root = Inr (?paths, items, [])" by blast
  have kept: "\<exists>ds f. (ds, f) \<in> set (files_in (tree fs root)) \<and> p = os_path_join root (ds @ [f])
                 \<and> (\<forall>d \<in> set ds. \<not> exclude_folder b d)" if "p \<in> set ?paths" for p
    using that unfolding kept_paths_mem by blast
  have pruned: "os_path_join root (ds @ [f]) \<notin> set ?paths"
    if inside: "(ds, f) \<in> set (files_in (tree fs root))" and ex: "\<exists>d \<in> set ds. exclude_folder b d"
    for ds f
  proof
    assume "os_path_join root (ds @ [f]) \<in> set ?paths"
    then obtain ds' f' where
      other: "(ds', f') \<in> set (files_in (tree fs root))"
        "os_path_join root (ds @ [f]) = os_path_join root (ds' @ [f'])"
        "\<forall>d \<in> set ds'. \<not> exclude_folder b d"
      unfolding kept_paths_mem by blast
    have "ds @ [f] = ds' @ [f']"
      using files_in_valid [OF assms(2) inside] files_in_valid [OF assms(2) other(1)] other(2)
      by (intro join_names_inject [of "ds @ [f]" "ds' @ [f']" root]) simp_all
    then have "ds = ds'" by simp
    with ex other(3) show False by blast
  qed
  from listing kept pruned show ?thesis by blast
qed

theorem pruned_subtrees_never_listed_witness:
  "\<exists>paths items.
     list_files pruning_browser pruning_fs \<lparr> window = 1, init_path = ''/proj'' \<rparr> ''/proj''
       = Inr (paths, items, [])
     \<and> ''/proj/node_modules/dep.ext'' \<notin> set paths
     \<and> ''/proj/node_modules/lib/deep.ext'' \<notin> set paths"
proof -
  have icons: "file_type_icons pruning_browser = build_file_type_icons []"
    by (simp add: pruning_browser_def example_browser_def)
  have wf: "wf_nodes (tree pruning_fs ''/proj'')"
    by (simp add: pruning_fs_def valid_name_def)
  have inside: "([''node_modules''], ''dep.ext'') \<in> set (files_in (tree pruning_fs ''/proj''))"
    "([''node_modules'', ''lib''], ''deep.ext'') \<in> set (files_in (tree pruning_fs ''/proj''))"
    by (simp_all add: pruning_fs_def)
  have joined: "os_path_join ''/proj'' ([''node_modules''] @ [''dep.ext'']) = ''/proj/node_modules/dep.ext''"
    "os_path_join ''/proj'' ([''node_modules'', ''lib''] @ [''deep.ext''])
       = ''/proj/node_modules/lib/deep.ext''"
    by (simp_all add: path_eval)
  from pruned_subtrees_never_listed [OF icons wf, of "\<lparr> window = 1, init_path = ''/proj'' \<rparr>"]
  obtain paths items where
    1: "list_files pruning_browser pruning_fs \<lparr> window = 1, init_path = ''/proj'' \<rparr> ''/proj''
         = Inr (paths, items, [])"
    and 2: "\<forall>ds f. (ds, f) \<in> set (files_in (tree pruning_fs ''/proj''))
               \<and> (\<exists>d \<in> set ds. exclude_folder pruning_browser d)
             \<longrightarrow> os_path_join ''/proj'' (ds @ [f]) \<notin> set paths"
    by blast
  have excluded: "\<exists>d \<in> set [''node_modules'']. exclude_folder pruning_browser d"
    "\<exists>d \<in> set [''node_modules'', ''lib'']. exclude_folder pruning_browser d"
    using pruning_excludes by simp_all
  have "os_path_join ''/proj'' ([''node_modules''] @ [''dep.ext'']) \<notin> set paths"
    using 2 inside(1) excluded(1) by blast
  moreover have "os_path_join ''/proj'' ([''node_modules'', ''lib''] @ [''deep.ext'']) \<notin> set paths"
    using 2 inside(2) excluded(2) by blast
  ultimately show ?thesis using 1 unfolding joined by blast
qed

subsection \<open>Normal forms of paths\<close>













lemma fold_dot: "foldl (normpath_step k) acc [''.''] = acc"
  by (simp add: normpath_step_def)






















subsection \<open>The relative paths of the listings\<close>














end
